theory Spec2Isabelle
  imports Main "HOL-Library.Multiset"
begin

section \<open>Positions, ranges and the document interface\<close>

text \<open>
  Modelled from the spec: \<open>Position\<close> and \<open>Range\<close> (\<open>vs/editor/common/core\<close>) are imported
  by \<open>inlayHints.ts\<close> and are not part of the sources. A position is a (line, column)
  pair ordered by line and then by column; a range is a start/end position pair whose
  constructor puts the smaller end point first.
\<close>

record Position =
  lineNumber :: int
  column :: int

definition isBefore :: "Position \<Rightarrow> Position \<Rightarrow> bool" where
  "isBefore a b =
     (if lineNumber a < lineNumber b then True
      else if lineNumber b < lineNumber a then False
      else column a < column b)"

definition Position_compare :: "Position \<Rightarrow> Position \<Rightarrow> int" where
  "Position_compare a b =
     (if lineNumber a = lineNumber b then column a - column b
      else lineNumber a - lineNumber b)"

record Range =
  startLineNumber :: int
  startColumn :: int
  endLineNumber :: int
  endColumn :: int

definition new_Range :: "int \<Rightarrow> int \<Rightarrow> int \<Rightarrow> int \<Rightarrow> Range" where
  "new_Range sl sc el ec =
     (if sl > el \<or> (sl = el \<and> sc > ec)
      then \<lparr>startLineNumber = el, startColumn = ec, endLineNumber = sl, endColumn = sc\<rparr>
      else \<lparr>startLineNumber = sl, startColumn = sc, endLineNumber = el, endColumn = ec\<rparr>)"

definition fromPositions :: "Position \<Rightarrow> Position \<Rightarrow> Range" where
  "fromPositions s e = new_Range (lineNumber s) (column s) (lineNumber e) (column e)"

definition getStartPosition :: "Range \<Rightarrow> Position" where
  "getStartPosition r = \<lparr>lineNumber = startLineNumber r, column = startColumn r\<rparr>"

definition getEndPosition :: "Range \<Rightarrow> Position" where
  "getEndPosition r = \<lparr>lineNumber = endLineNumber r, column = endColumn r\<rparr>"

text \<open>
  The document (\<open>ITextModel\<close>) and its line tokens are external collaborators; the code
  only calls the operations below, which are therefore parameters of the model.
  \<open>tokenizeIfCheap\<close> returns nothing that the code reads and is left out.
\<close>

record IWordAtPosition =
  word :: string
  word_startColumn :: int
  word_endColumn :: int

record LineTokens =
  getCount :: int
  findTokenIndexAtOffset :: "int \<Rightarrow> int"
  getStartOffset :: "int \<Rightarrow> int"
  getEndOffset :: "int \<Rightarrow> int"

record ITextModel =
  validatePosition :: "Position \<Rightarrow> Position"
  getWordAtPosition :: "Position \<Rightarrow> IWordAtPosition option"
  getLineTokens :: "int \<Rightarrow> LineTokens"

section \<open>Anchor placement\<close>

text \<open>\<open>InlayHintsFragments._getRangeAtPosition\<close>, lines 129-159.\<close>

definition getRangeAtPosition :: "ITextModel \<Rightarrow> Position \<Rightarrow> Range" where
  "getRangeAtPosition model position =
     (let line = lineNumber position in
      case getWordAtPosition model position of
        Some w \<Rightarrow> new_Range line (word_startColumn w) line (word_endColumn w)
      | None \<Rightarrow>
          (let tokens = getLineTokens model line;
               offset = column position - 1;
               idx = findTokenIndexAtOffset tokens offset;
               start = getStartOffset tokens idx;
               end = getEndOffset tokens idx;
               (start', end') =
                 (if end - start = 1 then
                    (if start = offset \<and> idx > 1
                     then (getStartOffset tokens (idx - 1), getEndOffset tokens (idx - 1))
                     else if end = offset \<and> idx < getCount tokens - 1
                     then (getStartOffset tokens (idx + 1), getEndOffset tokens (idx + 1))
                     else (start, end))
                  else (start, end))
           in new_Range line (start' + 1) line (end' + 1)))"

text \<open>
  Modelled from the spec: the line tokens of a line given as the list of its token texts
  (\<open>LineTokens\<close> is not part of the sources). Token \<open>i\<close> spans from the end of token
  \<open>i - 1\<close> to its own end, and \<open>findTokenIndexAtOffset\<close> locates the token whose span
  contains the offset (the last token for an offset at or past the end of the line).
\<close>

fun endOffsets :: "int \<Rightarrow> string list \<Rightarrow> int list" where
  "endOffsets acc [] = []"
| "endOffsets acc (t # ts) = (acc + int (length t)) # endOffsets (acc + int (length t)) ts"

definition offsetAt :: "int list \<Rightarrow> int \<Rightarrow> int" where
  "offsetAt es i = (if 0 \<le> i \<and> i < int (length es) then es ! nat i else 0)"

definition lineTokensOf :: "string list \<Rightarrow> LineTokens" where
  "lineTokensOf ts =
     (let es = endOffsets 0 ts in
      \<lparr>getCount = int (length es),
       findTokenIndexAtOffset =
         (\<lambda>offset. min (int (length (takeWhile (\<lambda>e. e \<le> offset) es))) (int (length es) - 1)),
       getStartOffset = (\<lambda>i. if i \<le> 0 then 0 else offsetAt es (i - 1)),
       getEndOffset = (\<lambda>i. offsetAt es i)\<rparr>)"

section \<open>Hints, anchors and items\<close>

text \<open>
  A hint carries its position and the two fields that resolution may replace. A field
  value \<open>None\<close> stands for JavaScript's \<open>undefined\<close>/\<open>null\<close>.
\<close>

record InlayHint =
  position :: Position
  label :: "string option"
  tooltip :: "string option"

record InlayHintList =
  hints :: "InlayHint list"

datatype Direction = Before | After

record InlayHintAnchor =
  range :: Range
  direction :: Direction

text \<open>
  What one call of \<open>provideInlayHints\<close> does: it throws (or its promise rejects) with an
  error, or it yields a result, which may be absent.
\<close>

datatype ProvideOutcome = Throws string | Yields "InlayHintList option"

text \<open>
  A producer. The document and the cancellation token are the same for all calls of one
  construction, so \<open>provideInlayHints\<close> is a function of the range alone. The two optional
  capabilities are recorded by their presence.
\<close>

record InlayHintsProvider =
  pid :: nat
  provideInlayHints :: "Range \<Rightarrow> ProvideOutcome"
  hasResolveInlayHint :: bool
  hasOnDidChangeInlayHints :: bool

text \<open>
  \<open>InlayHintItem\<close>, lines 19-31. The hint is held by reference in the code; the type
  parameter is the hint itself where nothing mutates it (construction) and an address
  into a store of hints where resolution does.
\<close>

record 'h InlayHintItem =
  hint :: 'h
  anchor :: InlayHintAnchor
  provider :: InlayHintsProvider
  isResolved :: bool
  currentResolve :: "nat option"

definition new_InlayHintItem :: "'h \<Rightarrow> InlayHintAnchor \<Rightarrow> InlayHintsProvider \<Rightarrow> 'h InlayHintItem" where
  "new_InlayHintItem h a p =
     \<lparr>hint = h, anchor = a, provider = p, isResolved = False, currentResolve = None\<rparr>"

definition with_anchor :: "'h InlayHintItem \<Rightarrow> InlayHintAnchor \<Rightarrow> 'h InlayHintItem" where
  "with_anchor this a =
     (new_InlayHintItem (hint this) a (provider this))
       \<lparr>isResolved := isResolved this, currentResolve := currentResolve this\<rparr>"

section \<open>Construction of the fragment set\<close>

text \<open>The body of the inner loop of the constructor, lines 101-113.\<close>

definition computeAnchor :: "ITextModel \<Rightarrow> InlayHint \<Rightarrow> InlayHintAnchor" where
  "computeAnchor model h =
     (let pos = validatePosition model (position h);
          wordRange = getRangeAtPosition model pos
      in if isBefore (getStartPosition wordRange) pos
         then \<lparr>range = fromPositions (getStartPosition wordRange) pos, direction = After\<rparr>
         else \<lparr>range = fromPositions pos (getEndPosition wordRange), direction = Before\<rparr>)"

text \<open>
  Modelled from the spec: \<open>Array.prototype.sort\<close> with a comparator is the language's
  stable sort. An element is placed before the first element of the sorted rest
  that does not compare smaller than it.
\<close>

fun insertBy :: "('a \<Rightarrow> 'a \<Rightarrow> int) \<Rightarrow> 'a \<Rightarrow> 'a list \<Rightarrow> 'a list" where
  "insertBy cmp x [] = [x]"
| "insertBy cmp x (y # ys) = (if cmp x y \<le> 0 then x # y # ys else y # insertBy cmp x ys)"

fun sortBy :: "('a \<Rightarrow> 'a \<Rightarrow> int) \<Rightarrow> 'a list \<Rightarrow> 'a list" where
  "sortBy cmp [] = []"
| "sortBy cmp (x # xs) = insertBy cmp x (sortBy cmp xs)"

definition compareItems :: "InlayHint InlayHintItem \<Rightarrow> InlayHint InlayHintItem \<Rightarrow> int" where
  "compareItems a b = Position_compare (position (hint a)) (position (hint b))"

text \<open>The items pushed for one collected (list, provider) pair, lines 98-116.\<close>

definition itemsOf :: "ITextModel \<Rightarrow> InlayHintList \<times> InlayHintsProvider \<Rightarrow> InlayHint InlayHintItem list" where
  "itemsOf model d =
     map (\<lambda>h. new_InlayHintItem h (computeAnchor model h) (snd d)) (hints (fst d))"

definition unsortedItems :: "ITextModel \<Rightarrow> (InlayHintList \<times> InlayHintsProvider) list \<Rightarrow> InlayHint InlayHintItem list" where
  "unsortedItems model data = concat (map (itemsOf model) data)"

definition constructItems :: "ITextModel \<Rightarrow> (InlayHintList \<times> InlayHintsProvider) list \<Rightarrow> InlayHint InlayHintItem list" where
  "constructItems model data = sortBy compareItems (unsortedItems model data)"

text \<open>
  \<open>InlayHintsFragments.create\<close>, lines 68-86. The calls are launched for the reversed
  producer order, each producer over all ranges. Every call is a task that suspends at
  its \<open>await\<close>; when the call settles the task either pushes its result onto \<open>data\<close> or
  reports the error. The order in which the calls settle is not fixed by the code: it is
  the schedule, a list of indices into the launch list. \<open>Promise.all\<close> completes once
  every launched call has settled, which is when the constructor runs.
\<close>

definition launch :: "InlayHintsProvider list \<Rightarrow> Range list \<Rightarrow> (InlayHintsProvider \<times> Range) list" where
  "launch providers ranges = concat (map (\<lambda>p. map (\<lambda>r. (p, r)) ranges) (rev providers))"

text \<open>
  The array \<open>data\<close> and the errors reported so far. A call that throws and a call whose
  promise rejects both end in the \<open>catch\<close> of line 78.
\<close>

record Collected =
  data :: "(InlayHintList \<times> InlayHintsProvider) list"
  reported :: "string list"

definition settleCall :: "InlayHintsProvider \<times> Range \<Rightarrow> Collected \<Rightarrow> Collected" where
  "settleCall c st =
     (case provideInlayHints (fst c) (snd c) of
        Throws err \<Rightarrow> st\<lparr>reported := reported st @ [err]\<rparr>
      | Yields None \<Rightarrow> st
      | Yields (Some result) \<Rightarrow>
          (if length (hints result) \<noteq> 0 then st\<lparr>data := data st @ [(result, fst c)]\<rparr> else st))"

definition collect :: "(InlayHintsProvider \<times> Range) list \<Rightarrow> nat list \<Rightarrow> Collected" where
  "collect calls schedule =
     fold (\<lambda>i. settleCall (calls ! i)) schedule \<lparr>data = [], reported = []\<rparr>"

text \<open>
  Every launched call has settled, once: the schedule is a permutation of the indices of
  the launch list. Under this test every index that \<open>collect\<close> reads is in range.
\<close>

definition allSettled :: "nat \<Rightarrow> nat list \<Rightarrow> bool" where
  "allSettled n schedule = (sort schedule = [0..<n])"

text \<open>
  What a completed construction leaves: the sorted items of the fragment set, the
  collected \<open>data\<close> that the constructor was given, and the errors passed to
  \<open>onUnexpectedExternalError\<close>. A construction whose calls have not all settled has not
  completed, which is the result \<open>None\<close>.
\<close>

record Created =
  items :: "InlayHint InlayHintItem list"
  collected :: "(InlayHintList \<times> InlayHintsProvider) list"
  errors :: "string list"

definition create :: "ITextModel \<Rightarrow> InlayHintsProvider list \<Rightarrow> Range list \<Rightarrow> nat list \<Rightarrow> Created option" where
  "create model providers ranges schedule =
     (let calls = launch providers ranges in
      if allSettled (length calls) schedule
      then (let st = collect calls schedule
            in Some \<lparr>items = constructItems model (data st), collected = data st,
                     errors = reported st\<rparr>)
      else None)"

section \<open>What a call contributes\<close>

text \<open>
  The hints a call returned and the error it threw, read off the producer's outcome, and
  the \<open>data\<close> entries and items that the settled call leaves behind.
\<close>

definition returnedHints :: "InlayHintsProvider \<times> Range \<Rightarrow> InlayHint list" where
  "returnedHints c =
     (case provideInlayHints (fst c) (snd c) of
        Yields (Some result) \<Rightarrow> hints result
      | _ \<Rightarrow> [])"

definition thrownErrors :: "InlayHintsProvider \<times> Range \<Rightarrow> string list" where
  "thrownErrors c =
     (case provideInlayHints (fst c) (snd c) of Throws err \<Rightarrow> [err] | _ \<Rightarrow> [])"

definition contribution :: "InlayHintsProvider \<times> Range \<Rightarrow> (InlayHintList \<times> InlayHintsProvider) list" where
  "contribution c = data (settleCall c \<lparr>data = [], reported = []\<rparr>)"

definition callItems :: "ITextModel \<Rightarrow> InlayHintsProvider \<times> Range \<Rightarrow> InlayHint InlayHintItem list" where
  "callItems model c = unsortedItems model (contribution c)"

text \<open>The order that the comparator of line 121 induces on items.\<close>

definition itemLe :: "InlayHint InlayHintItem \<Rightarrow> InlayHint InlayHintItem \<Rightarrow> bool" where
  "itemLe a b = (compareItems a b \<le> 0)"

section \<open>Example documents and producers\<close>

definition tokenDocument :: "string list \<Rightarrow> ITextModel" where
  "tokenDocument ts =
     \<lparr>validatePosition = (\<lambda>p. p), getWordAtPosition = (\<lambda>p. None),
      getLineTokens = (\<lambda>l. lineTokensOf ts)\<rparr>"

definition exampleDocument :: ITextModel where
  "exampleDocument = tokenDocument [''foo'', ''.'', '' bar'']"

definition wordDocument :: ITextModel where
  "wordDocument =
     \<lparr>validatePosition = (\<lambda>p. p),
      getWordAtPosition = (\<lambda>p. Some \<lparr>word = ''foo'', word_startColumn = 1, word_endColumn = 4\<rparr>),
      getLineTokens = (\<lambda>l. lineTokensOf [''fo'', ''o. bar''])\<rparr>"

definition hintAt :: "int \<Rightarrow> int \<Rightarrow> string \<Rightarrow> InlayHint" where
  "hintAt l c s = \<lparr>position = \<lparr>lineNumber = l, column = c\<rparr>, label = Some s, tooltip = None\<rparr>"

definition constantProvider :: "nat \<Rightarrow> ProvideOutcome \<Rightarrow> InlayHintsProvider" where
  "constantProvider n out =
     \<lparr>pid = n, provideInlayHints = (\<lambda>r. out), hasResolveInlayHint = True,
      hasOnDidChangeInlayHints = True\<rparr>"

definition firstProducer :: InlayHintsProvider where
  "firstProducer = constantProvider 0 (Yields (Some \<lparr>hints = [hintAt 3 5 ''a'']\<rparr>))"

definition secondProducer :: InlayHintsProvider where
  "secondProducer = constantProvider 1 (Yields (Some \<lparr>hints = [hintAt 3 5 ''b'']\<rparr>))"

definition failingProducer :: InlayHintsProvider where
  "failingProducer = constantProvider 2 (Throws ''boom'')"

definition thirdProducer :: InlayHintsProvider where
  "thirdProducer = constantProvider 3 (Yields (Some \<lparr>hints = [hintAt 3 6 ''c'']\<rparr>))"

definition wholeLine :: Range where
  "wholeLine = new_Range 3 1 3 9"

definition nextLine :: Range where
  "nextLine = new_Range 4 1 4 9"

text \<open>A producer whose answer depends on the range: one hint on the range's first line.\<close>

definition lineProducer :: InlayHintsProvider where
  "lineProducer =
     \<lparr>pid = 5,
      provideInlayHints = (\<lambda>r. Yields (Some \<lparr>hints = [hintAt (startLineNumber r) 1 ''l'']\<rparr>)),
      hasResolveInlayHint = True, hasOnDidChangeInlayHints = True\<rparr>"

section \<open>Resolution\<close>

text \<open>
  \<open>InlayHintItem.resolve\<close> and \<open>_doResolve\<close>, lines 33-63, are asynchronous: a call runs
  until its next \<open>await\<close> and is resumed later. The model is a transition system over
  the objects the code touches. Hints and items live in stores and are named by their
  addresses, since a copy made by \<open>with\<close> shares the hint and the promise with the
  original while holding its own \<open>_isResolved\<close> and \<open>_currentResolve\<close> fields. A
  promise is the value \<open>_doResolve(token).finally(...)\<close> assigned in line 47; it
  remembers the item whose \<open>resolve\<close> created it, which is the \<open>this\<close> of the
  \<open>finally\<close> callback.
\<close>

datatype Completion = Normal | Abrupt string

datatype ResolveOutcome = Rejects string | Resolves "InlayHint option"

datatype PromiseState = Pending | BodyDone Completion | Settled Completion

record PromiseRec =
  owner :: nat
  pstate :: PromiseState

datatype CallerState = AwaitRetry nat | AwaitFinal "nat option" | Finished Completion

record CallerRec =
  target :: nat
  token :: nat
  cstate :: CallerState

record Runtime =
  hintStore :: "nat \<Rightarrow> InlayHint"
  itemStore :: "nat \<Rightarrow> nat InlayHintItem"
  itemCount :: nat
  promises :: "nat \<Rightarrow> PromiseRec"
  promiseCount :: nat
  callers :: "nat \<Rightarrow> CallerRec"
  callerCount :: nat
  cancelled :: "nat list"
  sink :: "string list"
  invoked :: "nat list"

text \<open>The operator \<open>??\<close>: the left operand unless it is \<open>undefined\<close> or \<open>null\<close>.\<close>

definition nullish :: "'a option \<Rightarrow> 'a option \<Rightarrow> 'a option" where
  "nullish a b = (case a of None \<Rightarrow> b | Some v \<Rightarrow> Some v)"

text \<open>
  \<open>_doResolve\<close> from the point where the awaited producer call has settled, lines 55-62:
  the new hint, the new \<open>_isResolved\<close>, the error sink, and how the body completes.
\<close>

definition doResolve_body ::
  "ResolveOutcome \<Rightarrow> InlayHint \<Rightarrow> string list \<Rightarrow> InlayHint \<times> bool \<times> string list \<times> Completion" where
  "doResolve_body out h snk =
     (case out of
        Resolves newHint \<Rightarrow>
          (h\<lparr>tooltip := nullish (Option.bind newHint tooltip) (tooltip h),
             label := nullish (Option.bind newHint label) (label h)\<rparr>,
           True, snk, Normal)
      | Rejects err \<Rightarrow> (h, False, snk @ [err], Normal))"

text \<open>
  \<open>resolve\<close> from its entry to its first \<open>await\<close>, lines 34-50, for a call on item \<open>i\<close>:
  the new state and where the caller is left. Starting \<open>_doResolve\<close> invokes the
  producer's \<open>resolveInlayHint\<close>, which is logged in \<open>invoked\<close>.
\<close>

definition resolve_enter :: "nat \<Rightarrow> Runtime \<Rightarrow> Runtime \<times> CallerState" where
  "resolve_enter i s =
     (let this = itemStore s i in
      if \<not> hasResolveInlayHint (provider this) then (s, Finished Normal)
      else case currentResolve this of
        Some p \<Rightarrow> (s, AwaitRetry p)
      | None \<Rightarrow>
          if \<not> isResolved this then
            (let p = promiseCount s in
             (s\<lparr>promises := (promises s)(p := \<lparr>owner = i, pstate = Pending\<rparr>),
                promiseCount := Suc p,
                invoked := invoked s @ [i],
                itemStore := (itemStore s)(i := this\<lparr>currentResolve := Some p\<rparr>)\<rparr>,
              AwaitFinal (Some p)))
          else (s, AwaitFinal None))"

datatype Event =
    Call nat nat
  | Settle nat ResolveOutcome
  | Finally nat
  | Resume nat
  | Cancel nat
  | With nat InlayHintAnchor

text \<open>
  One step. \<open>Call i t\<close>: \<open>resolve(t)\<close> is called on item \<open>i\<close>. \<open>Settle p out\<close>: the
  producer call awaited by the \<open>_doResolve\<close> behind promise \<open>p\<close> settles and the body
  runs to its end. \<open>Finally p\<close>: the \<open>finally\<close> callback clears the handle of the item
  that created \<open>p\<close>, and \<open>p\<close> settles. \<open>Resume c\<close>: caller \<open>c\<close> continues after the
  \<open>await\<close> it is suspended at. \<open>Cancel t\<close>: cancellation of token \<open>t\<close> is requested.
  \<open>With i a\<close>: \<open>with\<close> is called on item \<open>i\<close>. A step that is not possible in the state
  gives \<open>None\<close>. A producer that throws at once, or returns a plain value, is a \<open>Call\<close>
  followed directly by the \<open>Settle\<close> of the new promise. Callers may be resumed in any
  order, which includes the order of the JavaScript job queue.
\<close>

definition setCaller :: "nat \<Rightarrow> CallerState \<Rightarrow> Runtime \<Rightarrow> Runtime" where
  "setCaller c st s = s\<lparr>callers := (callers s)(c := (callers s c)\<lparr>cstate := st\<rparr>)\<rparr>"

definition retry :: "nat \<Rightarrow> Runtime \<Rightarrow> Runtime" where
  "retry c s =
     (if token (callers s c) \<in> set (cancelled s) then setCaller c (Finished Normal) s
      else (let (s', st) = resolve_enter (target (callers s c)) s in setCaller c st s'))"

fun step :: "Event \<Rightarrow> Runtime \<Rightarrow> Runtime option" where
  "step (Call i t) s =
     (if i < itemCount s then
        (let (s', st) = resolve_enter i s in
         Some (s'\<lparr>callers := (callers s')(callerCount s' := \<lparr>target = i, token = t, cstate = st\<rparr>),
                  callerCount := Suc (callerCount s')\<rparr>))
      else None)"
| "step (Settle p out) s =
     (if p < promiseCount s \<and> pstate (promises s p) = Pending then
        (let i = owner (promises s p);
             this = itemStore s i;
             (h, r, snk, compl) = doResolve_body out (hintStore s (hint this)) (sink s)
         in Some (s\<lparr>hintStore := (hintStore s)(hint this := h),
                    itemStore := (itemStore s)(i := this\<lparr>isResolved := r\<rparr>),
                    sink := snk,
                    promises := (promises s)(p := (promises s p)\<lparr>pstate := BodyDone compl\<rparr>)\<rparr>))
      else None)"
| "step (Finally p) s =
     (if p < promiseCount s then
        (case pstate (promises s p) of
           BodyDone compl \<Rightarrow>
             (let i = owner (promises s p) in
              Some (s\<lparr>itemStore := (itemStore s)(i := (itemStore s i)\<lparr>currentResolve := None\<rparr>),
                      promises := (promises s)(p := (promises s p)\<lparr>pstate := Settled compl\<rparr>)\<rparr>))
         | _ \<Rightarrow> None)
      else None)"
| "step (Resume c) s =
     (if c < callerCount s then
        (case cstate (callers s c) of
           AwaitRetry p \<Rightarrow>
             (case pstate (promises s p) of
                Settled Normal \<Rightarrow> Some (retry c s)
              | Settled (Abrupt e) \<Rightarrow> Some (setCaller c (Finished (Abrupt e)) s)
              | _ \<Rightarrow> None)
         | AwaitFinal (Some p) \<Rightarrow>
             (case pstate (promises s p) of
                Settled compl \<Rightarrow> Some (setCaller c (Finished compl) s)
              | _ \<Rightarrow> None)
         | AwaitFinal None \<Rightarrow> Some (setCaller c (Finished Normal) s)
         | Finished compl \<Rightarrow> None)
      else None)"
| "step (Cancel t) s = Some (s\<lparr>cancelled := t # cancelled s\<rparr>)"
| "step (With i a) s =
     (if i < itemCount s then
        Some (s\<lparr>itemStore := (itemStore s)(itemCount s := with_anchor (itemStore s i) a),
                itemCount := Suc (itemCount s)\<rparr>)
      else None)"

fun exec :: "Event list \<Rightarrow> Runtime \<Rightarrow> Runtime option" where
  "exec [] s = Some s"
| "exec (e # es) s = (case step e s of None \<Rightarrow> None | Some s' \<Rightarrow> exec es s')"

text \<open>
  A state before any call of \<open>resolve\<close>: the items are as their constructor leaves
  them, unresolved and without a handle.
\<close>

definition initial :: "(nat \<Rightarrow> InlayHint) \<Rightarrow> (nat \<Rightarrow> nat InlayHintItem) \<Rightarrow> nat \<Rightarrow> Runtime" where
  "initial hs its n =
     \<lparr>hintStore = hs,
      itemStore = (\<lambda>i. (its i)\<lparr>isResolved := False, currentResolve := None\<rparr>),
      itemCount = n,
      promises = (\<lambda>p. \<lparr>owner = 0, pstate = Settled Normal\<rparr>), promiseCount = 0,
      callers = (\<lambda>c. \<lparr>target = 0, token = 0, cstate = Finished Normal\<rparr>), callerCount = 0,
      cancelled = [], sink = [], invoked = []\<rparr>"

text \<open>
  Predicates over states used to state and prove the properties of resolution: a promise
  is unsettled until its \<open>finally\<close> callback has run; \<open>handle\<close> reads an item's
  \<open>_currentResolve\<close>; \<open>wellFormed\<close> is the invariant of the reachable states.
\<close>

fun isSettled :: "PromiseState \<Rightarrow> bool" where
  "isSettled (Settled c) = True"
| "isSettled Pending = False"
| "isSettled (BodyDone c) = False"

fun completedNormally :: "PromiseState \<Rightarrow> bool" where
  "completedNormally (Settled c) = (c = Normal)"
| "completedNormally (BodyDone c) = (c = Normal)"
| "completedNormally Pending = True"

fun returnedNormally :: "CallerState \<Rightarrow> bool" where
  "returnedNormally (Finished c) = (c = Normal)"
| "returnedNormally (AwaitRetry p) = True"
| "returnedNormally (AwaitFinal p) = True"

definition unsettled :: "Runtime \<Rightarrow> nat \<Rightarrow> bool" where
  "unsettled s p = (p < promiseCount s \<and> \<not> isSettled (pstate (promises s p)))"

definition handle :: "Runtime \<Rightarrow> nat \<Rightarrow> nat option" where
  "handle s i = currentResolve (itemStore s i)"

definition wellFormed :: "Runtime \<Rightarrow> bool" where
  "wellFormed s =
     ((\<forall>i p. handle s i = Some p \<longrightarrow> p < promiseCount s) \<and>
      (\<forall>p. p < promiseCount s \<longrightarrow> owner (promises s p) < itemCount s) \<and>
      (\<forall>p. unsettled s p \<longrightarrow> handle s (owner (promises s p)) = Some p) \<and>
      (\<forall>p. completedNormally (pstate (promises s p))) \<and>
      (\<forall>c. returnedNormally (cstate (callers s c))) \<and>
      (\<forall>c. c < callerCount s \<longrightarrow> target (callers s c) < itemCount s) \<and>
      (\<forall>i. i \<in> set (invoked s) \<longrightarrow> i < itemCount s))"

text \<open>
  An item is idle when \<open>resolve\<close> on it would start a resolution. An item is orphaned
  with handle \<open>p\<close> when it holds \<open>p\<close> without having created any promise, so that no
  \<open>finally\<close> callback will clear its handle; a caller is waiting when it is suspended on
  \<open>p\<close> in line 40.
\<close>

definition idle :: "Runtime \<Rightarrow> nat \<Rightarrow> bool" where
  "idle s i =
     (i < itemCount s \<and> hasResolveInlayHint (provider (itemStore s i)) \<and>
      currentResolve (itemStore s i) = None \<and> \<not> isResolved (itemStore s i))"

definition orphaned :: "Runtime \<Rightarrow> nat \<Rightarrow> nat \<Rightarrow> bool" where
  "orphaned s j p =
     (j < itemCount s \<and> hasResolveInlayHint (provider (itemStore s j)) \<and>
      handle s j = Some p \<and>
      (\<forall>q. q < promiseCount s \<longrightarrow> owner (promises s q) \<noteq> j) \<and>
      j \<notin> set (invoked s))"

definition waiting :: "Runtime \<Rightarrow> nat \<Rightarrow> nat \<Rightarrow> nat \<Rightarrow> nat \<Rightarrow> bool" where
  "waiting s c j p t =
     (c < callerCount s \<and> target (callers s c) = j \<and> token (callers s c) = t \<and>
      cstate (callers s c) = AwaitRetry p)"

text \<open>An item store with one item, whose producer can resolve.\<close>

definition exampleAnchor :: InlayHintAnchor where
  "exampleAnchor =
     \<lparr>range = \<lparr>startLineNumber = 3, startColumn = 5, endLineNumber = 3, endColumn = 9\<rparr>,
      direction = Before\<rparr>"

definition exampleRuntime :: Runtime where
  "exampleRuntime =
     initial (\<lambda>a. (hintAt 3 5 ''a'')\<lparr>tooltip := Some ''tip''\<rparr>)
       (\<lambda>i. new_InlayHintItem 0 exampleAnchor firstProducer) 1"

section \<open>Change signals and release\<close>

text \<open>
  Modelled from the spec: \<open>Emitter\<close>, \<open>Event\<close> and \<open>DisposableStore\<close>
  (\<open>vs/base/common\<close>) are imported by \<open>inlayHints.ts\<close> and are not part of the sources.
  A producer's change signal keeps the listeners subscribed to it and calls each of them
  when it fires. Subscribing with a store of disposables puts the handle of the
  subscription into the store; disposing the store disposes every handle in it, and
  disposing the handle of a subscription removes its listener from the signal. A producer
  is identified by its \<open>pid\<close>.

  The state holds what the constructor (lines 97 and 117-119) and \<open>dispose\<close> (lines
  124-127) touch: the listeners that the fragment set has installed on producers'
  signals, each a pair of the producer and a listener number and each calling
  \<open>_onDidChange.fire\<close>; the store \<open>_disposables\<close>; whether \<open>_onDidChange\<close> is disposed; how
  often \<open>_onDidChange.fire\<close> has been called; and the result lists released.
\<close>

datatype Disposable = ResultList InlayHintList | Subscription nat nat

record Signals =
  forwarders :: "(nat \<times> nat) list"
  nextListener :: nat
  disposables :: "Disposable list"
  emitterDisposed :: bool
  fired :: nat
  releasedLists :: "InlayHintList list"

definition noSignals :: Signals where
  "noSignals =
     \<lparr>forwarders = [], nextListener = 0, disposables = [], emitterDisposed = False, fired = 0,
      releasedLists = []\<rparr>"

text \<open>\<open>provider.onDidChangeInlayHints(this._onDidChange.fire, this._onDidChange, this._disposables)\<close>.\<close>

definition subscribe :: "nat \<Rightarrow> Signals \<Rightarrow> Signals" where
  "subscribe q w =
     w\<lparr>forwarders := forwarders w @ [(q, nextListener w)],
       nextListener := Suc (nextListener w),
       disposables := disposables w @ [Subscription q (nextListener w)]\<rparr>"

text \<open>One round of the constructor's outer loop, without the items.\<close>

definition constructorStep :: "InlayHintList \<times> InlayHintsProvider \<Rightarrow> Signals \<Rightarrow> Signals" where
  "constructorStep d w =
     (let w' = w\<lparr>disposables := disposables w @ [ResultList (fst d)]\<rparr>
      in if hasOnDidChangeInlayHints (snd d) then subscribe (pid (snd d)) w' else w')"

definition constructSignals :: "(InlayHintList \<times> InlayHintsProvider) list \<Rightarrow> Signals" where
  "constructSignals ds = fold constructorStep ds noSignals"

text \<open>The change signal of producer \<open>q\<close> fires: every listener installed on it is called.\<close>

definition fireSignal :: "nat \<Rightarrow> Signals \<Rightarrow> Signals" where
  "fireSignal q w = w\<lparr>fired := fired w + length (filter (\<lambda>l. fst l = q) (forwarders w))\<rparr>"

fun disposeOne :: "Disposable \<Rightarrow> Signals \<Rightarrow> Signals" where
  "disposeOne (ResultList l) w = w\<lparr>releasedLists := releasedLists w @ [l]\<rparr>"
| "disposeOne (Subscription q k) w = w\<lparr>forwarders := removeAll (q, k) (forwarders w)\<rparr>"

definition dispose :: "Signals \<Rightarrow> Signals" where
  "dispose w = (fold disposeOne (disposables w) (w\<lparr>emitterDisposed := True\<rparr>))\<lparr>disposables := []\<rparr>"

text \<open>A producer with the change capability whose calls return no hints.\<close>

definition quietProducer :: InlayHintsProvider where
  "quietProducer = constantProvider 4 (Yields (Some \<lparr>hints = []\<rparr>))"

text \<open>Every installed listener has its handle in the store.\<close>

definition held :: "Signals \<Rightarrow> bool" where
  "held w = (\<forall>q k. (q, k) \<in> set (forwarders w) \<longrightarrow> Subscription q k \<in> set (disposables w))"

section \<open>The stable sort\<close>

lemma mset_insertBy: "mset (insertBy cmp x ys) = add_mset x (mset ys)"
  by (induction ys) auto

lemma mset_sortBy: "mset (sortBy cmp xs) = mset xs"
  by (induction xs) (auto simp: mset_insertBy)

lemma set_insertBy: "set (insertBy cmp x ys) = insert x (set ys)"
  by (induction ys) auto

lemma set_sortBy: "set (sortBy cmp xs) = set xs"
  by (induction xs) (auto simp: set_insertBy)

lemma Position_compare_trans:
  "Position_compare a b \<le> 0 \<Longrightarrow> Position_compare b c \<le> 0 \<Longrightarrow> Position_compare a c \<le> 0"
  by (auto simp: Position_compare_def split: if_splits)

lemma Position_compare_total:
  "\<not> Position_compare a b \<le> 0 \<Longrightarrow> Position_compare b a \<le> 0"
  by (auto simp: Position_compare_def split: if_splits)

lemma Position_compare_eq: "a = b \<Longrightarrow> Position_compare a b = 0"
  by (simp add: Position_compare_def)

lemma Position_compare_zero: "Position_compare a b = 0 \<Longrightarrow> (a :: Position) = b"
  by (cases a, cases b) (auto simp: Position_compare_def split: if_splits)

lemma sorted_insertBy:
  "sorted_wrt itemLe ys \<Longrightarrow> sorted_wrt itemLe (insertBy compareItems x ys)"
proof (induction ys)
  case Nil
  then show ?case by simp
next
  case (Cons y ys)
  show ?case
  proof (cases "compareItems x y \<le> 0")
    case True
    have "\<forall>z\<in>set ys. itemLe x z"
      using Cons.prems True
      by (auto simp: itemLe_def compareItems_def intro: Position_compare_trans)
    with True Cons.prems show ?thesis by (simp add: itemLe_def)
  next
    case False
    then have "itemLe y x"
      by (simp add: itemLe_def compareItems_def Position_compare_total)
    with False Cons show ?thesis by (auto simp: set_insertBy)
  qed
qed

lemma sorted_sortBy: "sorted_wrt itemLe (sortBy compareItems xs)"
  by (induction xs) (auto simp: sorted_insertBy)

lemma filter_insertBy:
  "filter (\<lambda>i. position (hint i) = p) (insertBy compareItems x ys) =
     (if position (hint x) = p then x # filter (\<lambda>i. position (hint i) = p) ys
      else filter (\<lambda>i. position (hint i) = p) ys)"
proof (induction ys)
  case Nil
  then show ?case by simp
next
  case (Cons y ys)
  then show ?case
    by (auto simp: compareItems_def Position_compare_eq)
qed

lemma filter_sortBy:
  "filter (\<lambda>i. position (hint i) = p) (sortBy compareItems xs) =
   filter (\<lambda>i. position (hint i) = p) xs"
  by (induction xs) (auto simp: filter_insertBy)

section \<open>Collection\<close>

lemma settleCall_app:
  "settleCall c st = st\<lparr>data := data st @ contribution c, reported := reported st @ thrownErrors c\<rparr>"
  by (simp add: settleCall_def contribution_def thrownErrors_def
      split: ProvideOutcome.splits option.splits)

lemma fold_settleCall:
  "fold (\<lambda>i. settleCall (calls ! i)) sched st =
     st\<lparr>data := data st @ concat (map (\<lambda>i. contribution (calls ! i)) sched),
        reported := reported st @ concat (map (\<lambda>i. thrownErrors (calls ! i)) sched)\<rparr>"
proof (induction sched arbitrary: st)
  case Nil
  then show ?case by simp
next
  case (Cons i sched)
  show ?case
    by (simp add: Cons.IH) (simp add: settleCall_app)
qed

lemma data_collect:
  "data (collect calls sched) = concat (map (\<lambda>i. contribution (calls ! i)) sched)"
  by (simp add: collect_def fold_settleCall)

lemma reported_collect:
  "reported (collect calls sched) = concat (map (\<lambda>i. thrownErrors (calls ! i)) sched)"
  by (simp add: collect_def fold_settleCall)

lemma hints_contribution:
  "concat (map (\<lambda>d. hints (fst d)) (contribution c)) = returnedHints c"
  by (simp add: contribution_def settleCall_def returnedHints_def
      split: ProvideOutcome.splits option.splits)

lemma hint_itemsOf: "map hint (itemsOf model d) = hints (fst d)"
  by (simp add: itemsOf_def new_InlayHintItem_def comp_def)

lemma hint_unsortedItems:
  "map hint (unsortedItems model ds) = concat (map (\<lambda>d. hints (fst d)) ds)"
  by (induction ds) (simp_all add: unsortedItems_def hint_itemsOf)

lemma hints_of_schedule:
  "concat (map (\<lambda>d. hints (fst d)) (concat (map (\<lambda>i. contribution (calls ! i)) sched))) =
   concat (map (\<lambda>i. returnedHints (calls ! i)) sched)"
  by (induction sched) (simp_all add: hints_contribution)

lemma sum_over_schedule:
  assumes "mset sched = mset [0..<length calls]"
  shows "(\<Sum>i\<leftarrow>sched. f (calls ! i)) = (\<Sum>c\<leftarrow>calls. (f c :: 'b :: comm_monoid_add))"
proof -
  have "(\<Sum>i\<leftarrow>sched. f (calls ! i)) = sum_mset (image_mset (\<lambda>i. f (calls ! i)) (mset sched))"
    by (metis mset_map sum_mset_sum_list)
  also have "\<dots> = sum_mset (image_mset (\<lambda>i. f (calls ! i)) (mset [0..<length calls]))"
    using assms by simp
  also have "\<dots> = (\<Sum>i\<leftarrow>[0..<length calls]. f (calls ! i))"
    by (metis mset_map sum_mset_sum_list)
  also have "\<dots> = (\<Sum>c\<leftarrow>map (\<lambda>i. calls ! i) [0..<length calls]. f c)"
    by (simp add: comp_def)
  also have "\<dots> = (\<Sum>c\<leftarrow>calls. f c)"
    by (simp add: map_nth)
  finally show ?thesis .
qed

lemma mset_concat_map: "mset (concat (map f xs)) = (\<Sum>x\<leftarrow>xs. mset (f x))"
  by (induction xs) simp_all

lemma allSettled_mset: "allSettled n schedule = (mset schedule = mset [0..<n])"
proof
  assume "allSettled n schedule"
  then have "mset (sort schedule) = mset [0..<n]"
    by (simp add: allSettled_def)
  then show "mset schedule = mset [0..<n]"
    by simp
next
  assume "mset schedule = mset [0..<n]"
  then have "sort schedule = [0..<n]"
    by (intro properties_for_sort) simp_all
  then show "allSettled n schedule"
    by (simp add: allSettled_def)
qed

lemma collected_over_launch:
  "(create model providers ranges schedule \<noteq> None) =
     allSettled (length (launch providers ranges)) schedule \<and>
   (\<forall>fs. create model providers ranges schedule = Some fs \<longrightarrow>
      mset (map hint (items fs)) = (\<Sum>c\<leftarrow>launch providers ranges. mset (returnedHints c)) \<and>
      mset (errors fs) = (\<Sum>c\<leftarrow>launch providers ranges. mset (thrownErrors c)))"
proof (intro conjI allI impI)
  show "(create model providers ranges schedule \<noteq> None) =
     allSettled (length (launch providers ranges)) schedule"
    by (simp add: create_def Let_def)
next
  fix fs
  assume c: "create model providers ranges schedule = Some fs"
  then have all: "mset schedule = mset [0..<length (launch providers ranges)]"
    by (simp add: create_def allSettled_mset Let_def split: if_splits)
  from c have it: "items fs = constructItems model (data (collect (launch providers ranges) schedule))"
    and er: "errors fs = reported (collect (launch providers ranges) schedule)"
    by (auto simp: create_def Let_def split: if_splits)
  have "mset (map hint (items fs)) =
        mset (map hint (unsortedItems model (data (collect (launch providers ranges) schedule))))"
    by (simp add: it constructItems_def mset_sortBy)
  also have "\<dots> = mset (concat (map (\<lambda>i. returnedHints (launch providers ranges ! i)) schedule))"
    by (simp only: hint_unsortedItems data_collect hints_of_schedule)
  also have "\<dots> = (\<Sum>i\<leftarrow>schedule. mset (returnedHints (launch providers ranges ! i)))"
    by (simp only: mset_concat_map)
  also have "\<dots> = (\<Sum>c\<leftarrow>launch providers ranges. mset (returnedHints c))"
    by (rule sum_over_schedule [OF all])
  finally show "mset (map hint (items fs)) = (\<Sum>c\<leftarrow>launch providers ranges. mset (returnedHints c))" .
  have "mset (errors fs) = (\<Sum>i\<leftarrow>schedule. mset (thrownErrors (launch providers ranges ! i)))"
    by (simp only: er reported_collect mset_concat_map)
  also have "\<dots> = (\<Sum>c\<leftarrow>launch providers ranges. mset (thrownErrors c))"
    by (rule sum_over_schedule [OF all])
  finally show "mset (errors fs) = (\<Sum>c\<leftarrow>launch providers ranges. mset (thrownErrors c))" .
qed

lemma length_launch: "length (launch providers ranges) = length providers * length ranges"
  by (simp add: launch_def length_concat comp_def sum_list_triv)

lemma sum_over_pairs:
  "(\<Sum>c\<leftarrow>concat (map (\<lambda>p. map (\<lambda>r. (p, r)) rs) ps). (f c :: 'b :: comm_monoid_add)) =
   (\<Sum>p\<leftarrow>ps. \<Sum>r\<leftarrow>rs. f (p, r))"
  by (induction ps) (simp_all add: comp_def)

lemma sum_over_launch:
  "(\<Sum>c\<leftarrow>launch providers ranges. (f c :: 'b :: comm_monoid_add)) =
   (\<Sum>p\<leftarrow>providers. \<Sum>r\<leftarrow>ranges. f (p, r))"
proof -
  have "(\<Sum>c\<leftarrow>launch providers ranges. f c) = (\<Sum>p\<leftarrow>rev providers. \<Sum>r\<leftarrow>ranges. f (p, r))"
    unfolding launch_def by (rule sum_over_pairs)
  also have "\<dots> = sum_list (rev (map (\<lambda>p. \<Sum>r\<leftarrow>ranges. f (p, r)) providers))"
    by (simp only: rev_map)
  also have "\<dots> = (\<Sum>p\<leftarrow>providers. \<Sum>r\<leftarrow>ranges. f (p, r))"
    by (rule sum_list_rev)
  finally show ?thesis .
qed

text \<open>
  Claim C7. Construction completes exactly when each of the calls, one for every producer
  and every requested range, has settled once. However the calls settle and whichever of
  them throw, the hints of the final items are, as a multiset, the hints that the
  producers returned for the requested ranges in the calls that did not throw: each
  returned hint appears once, none is dropped, a throwing call contributes none. The
  errors reported to the error sink are the errors thrown, one report per throwing call.
\<close>

theorem every_returned_hint_exactly_once:
  "(create model providers ranges schedule \<noteq> None) =
     (mset schedule = mset [0..<length providers * length ranges]) \<and>
   (\<forall>fs. create model providers ranges schedule = Some fs \<longrightarrow>
      mset (map hint (items fs)) =
        (\<Sum>p\<leftarrow>providers. \<Sum>r\<leftarrow>ranges. mset (returnedHints (p, r))) \<and>
      mset (errors fs) =
        (\<Sum>p\<leftarrow>providers. \<Sum>r\<leftarrow>ranges. mset (thrownErrors (p, r))))"
  using collected_over_launch [of model providers ranges schedule]
  unfolding allSettled_mset length_launch sum_over_launch .

section \<open>Anchors and order of the items\<close>

lemma new_Range_ordered:
  "\<not> isBefore (getEndPosition (new_Range a b c d)) (getStartPosition (new_Range a b c d))"
  by (simp add: new_Range_def isBefore_def getEndPosition_def getStartPosition_def)

lemma getRangeAtPosition_ordered:
  "\<not> isBefore (getEndPosition (getRangeAtPosition m p)) (getStartPosition (getRangeAtPosition m p))"
  by (simp add: getRangeAtPosition_def Let_def new_Range_ordered split: option.splits prod.splits)

lemma fromPositions_ordered:
  "\<not> isBefore e s \<Longrightarrow>
   getStartPosition (fromPositions s e) = s \<and> getEndPosition (fromPositions s e) = e"
  by (auto simp: fromPositions_def new_Range_def isBefore_def getStartPosition_def
      getEndPosition_def split: if_splits)

lemma isBefore_asym: "isBefore a b \<Longrightarrow> \<not> isBefore b a"
  by (auto simp: isBefore_def split: if_splits)

lemma isBefore_chain: "\<not> isBefore b a \<Longrightarrow> \<not> isBefore c b \<Longrightarrow> \<not> isBefore c a"
  by (auto simp: isBefore_def split: if_splits)

lemma computeAnchor_after:
  assumes "isBefore (getStartPosition (getRangeAtPosition m (validatePosition m (position h))))
             (validatePosition m (position h))"
  shows "direction (computeAnchor m h) = After"
    and "getStartPosition (range (computeAnchor m h)) =
           getStartPosition (getRangeAtPosition m (validatePosition m (position h)))"
    and "getEndPosition (range (computeAnchor m h)) = validatePosition m (position h)"
  using assms fromPositions_ordered [OF isBefore_asym [OF assms]]
  by (simp_all add: computeAnchor_def Let_def)

lemma computeAnchor_before:
  assumes "\<not> isBefore (getStartPosition (getRangeAtPosition m (validatePosition m (position h))))
             (validatePosition m (position h))"
  shows "direction (computeAnchor m h) = Before"
    and "getStartPosition (range (computeAnchor m h)) = validatePosition m (position h)"
    and "getEndPosition (range (computeAnchor m h)) =
           getEndPosition (getRangeAtPosition m (validatePosition m (position h)))"
  using assms fromPositions_ordered [OF isBefore_chain [OF assms getRangeAtPosition_ordered]]
  by (simp_all add: computeAnchor_def Let_def)

lemma anchor_unsortedItems:
  "it \<in> set (unsortedItems m ds) \<Longrightarrow> anchor it = computeAnchor m (hint it)"
  by (auto simp: unsortedItems_def itemsOf_def new_InlayHintItem_def)

lemma anchor_constructItems:
  "it \<in> set (constructItems m ds) \<Longrightarrow> anchor it = computeAnchor m (hint it)"
  by (simp add: constructItems_def set_sortBy anchor_unsortedItems)

lemma items_create:
  "create m ps rs sched = Some fs \<Longrightarrow>
   items fs = constructItems m (data (collect (launch ps rs) sched))"
  by (auto simp: create_def Let_def split: if_splits)

text \<open>
  Claim C3. For every item of a constructed fragment set, with \<open>pos\<close> the validated
  position of its hint and \<open>span\<close> the placement computed at \<open>pos\<close>: the side is
  \<open>After\<close> exactly when the start of \<open>span\<close> is strictly before \<open>pos\<close>, and then the
  anchor range runs from the start of \<open>span\<close> to \<open>pos\<close>; otherwise the side is
  \<open>Before\<close> and the anchor range runs from \<open>pos\<close> to the end of \<open>span\<close>. A span that
  starts and ends at \<open>pos\<close> gives \<open>Before\<close>.
\<close>

theorem anchor_side_follows_span_start:
  assumes "create model providers ranges schedule = Some fs"
    and "it \<in> set (items fs)"
  shows "let pos = validatePosition model (position (hint it));
             span = getRangeAtPosition model pos
         in (direction (anchor it) = After) = isBefore (getStartPosition span) pos \<and>
            (direction (anchor it) = Before) = (\<not> isBefore (getStartPosition span) pos) \<and>
            (isBefore (getStartPosition span) pos \<longrightarrow>
               getStartPosition (range (anchor it)) = getStartPosition span \<and>
               getEndPosition (range (anchor it)) = pos) \<and>
            (\<not> isBefore (getStartPosition span) pos \<longrightarrow>
               getStartPosition (range (anchor it)) = pos \<and>
               getEndPosition (range (anchor it)) = getEndPosition span) \<and>
            (getStartPosition span = pos \<and> getEndPosition span = pos \<longrightarrow>
               direction (anchor it) = Before)"
proof -
  have a: "anchor it = computeAnchor model (hint it)"
    using assms by (simp add: items_create anchor_constructItems)
  have irrefl: "\<And>p. \<not> isBefore p p"
    by (simp add: isBefore_def)
  show ?thesis
  proof (cases "isBefore (getStartPosition (getRangeAtPosition model
                  (validatePosition model (position (hint it)))))
                  (validatePosition model (position (hint it)))")
    case True
    from computeAnchor_after [OF True] True irrefl show ?thesis
      by (auto simp: a Let_def)
  next
    case False
    from computeAnchor_before [OF False] False show ?thesis
      by (simp add: a Let_def)
  qed
qed

text \<open>
  Claim C1, amended. The items of a constructed fragment set are sorted non-decreasingly
  by hint position, and the items at one position are in the order in which their
  result lists were collected, that is, in the order in which the calls settled.
\<close>

theorem items_sorted_ties_in_collection_order:
  assumes "create model providers ranges schedule = Some fs"
  shows "sorted_wrt (\<lambda>a b. Position_compare (position (hint a)) (position (hint b)) \<le> 0) (items fs) \<and>
         (\<forall>p. filter (\<lambda>i. position (hint i) = p) (items fs) =
              filter (\<lambda>i. position (hint i) = p)
                (concat (map (\<lambda>i. callItems model (launch providers ranges ! i)) schedule)))"
proof -
  have u: "unsortedItems model (data (collect (launch providers ranges) schedule)) =
           concat (map (\<lambda>i. callItems model (launch providers ranges ! i)) schedule)"
    unfolding data_collect
    by (induction schedule) (simp_all add: unsortedItems_def callItems_def)
  have s: "sorted_wrt itemLe (items fs)"
    by (simp add: items_create [OF assms] constructItems_def sorted_sortBy)
  have "itemLe = (\<lambda>a b. Position_compare (position (hint a)) (position (hint b)) \<le> 0)"
    by (simp add: itemLe_def compareItems_def fun_eq_iff)
  with s show ?thesis
    by (simp add: items_create [OF assms] constructItems_def filter_sortBy u)
qed

text \<open>
  Claim C8. Where the document reports a word at the position, the placement is that
  word's span on the position's line, whatever the line tokens of the document are.
\<close>

theorem word_range_preferred:
  assumes "getWordAtPosition model pos = Some w"
  shows "getRangeAtPosition (model\<lparr>getLineTokens := tokens\<rparr>) pos =
           new_Range (lineNumber pos) (word_startColumn w) (lineNumber pos) (word_endColumn w)"
  using assms by (simp add: getRangeAtPosition_def Let_def)

lemmas example_defs =
  create_def launch_def allSettled_def collect_def settleCall_def constructItems_def
  unsortedItems_def itemsOf_def new_InlayHintItem_def compareItems_def Position_compare_def
  firstProducer_def secondProducer_def thirdProducer_def failingProducer_def
  constantProvider_def hintAt_def

theorem items_sorted_ties_in_collection_order_witness:
  "create exampleDocument [firstProducer, secondProducer] [wholeLine] [1, 0] =
     Some \<lparr>items = constructItems exampleDocument
                   [(\<lparr>hints = [hintAt 3 5 ''a'']\<rparr>, firstProducer),
                    (\<lparr>hints = [hintAt 3 5 ''b'']\<rparr>, secondProducer)],
           collected = [(\<lparr>hints = [hintAt 3 5 ''a'']\<rparr>, firstProducer),
                        (\<lparr>hints = [hintAt 3 5 ''b'']\<rparr>, secondProducer)],
           errors = []\<rparr> \<and>
   map (\<lambda>i. pid (provider i))
     (filter (\<lambda>i. position (hint i) = \<lparr>lineNumber = 3, column = 5\<rparr>)
       (constructItems exampleDocument
          [(\<lparr>hints = [hintAt 3 5 ''a'']\<rparr>, firstProducer),
           (\<lparr>hints = [hintAt 3 5 ''b'']\<rparr>, secondProducer)])) = [0, 1]"
proof -
  let ?d = "[(\<lparr>hints = [hintAt 3 5 ''a'']\<rparr>, firstProducer),
             (\<lparr>hints = [hintAt 3 5 ''b'']\<rparr>, secondProducer)]"
  let ?X = "\<lparr>items = constructItems exampleDocument ?d, collected = ?d, errors = []\<rparr>"
  have c: "create exampleDocument [firstProducer, secondProducer] [wholeLine] [1, 0] = Some ?X"
    by (simp add: create_def launch_def allSettled_def collect_def settleCall_def
        firstProducer_def secondProducer_def constantProvider_def hintAt_def)
  from items_sorted_ties_in_collection_order [OF c]
  have "filter (\<lambda>i. position (hint i) = \<lparr>lineNumber = 3, column = 5\<rparr>) (items ?X) =
        filter (\<lambda>i. position (hint i) = \<lparr>lineNumber = 3, column = 5\<rparr>)
          (concat (map (\<lambda>i. callItems exampleDocument
              (launch [firstProducer, secondProducer] [wholeLine] ! i)) [1, 0]))"
    by blast
  then show ?thesis
    using c
    by (simp add: callItems_def contribution_def example_defs)
qed

text \<open>
  With two producers that each return one hint at line 3, column 5, and calls that settle
  in the order in which they were launched, the hint of the producer that is later in the
  registry's order comes first: the claim as stated (earlier producers first) fails.
\<close>

theorem later_producer_first_counterexample:
  "map_option (\<lambda>fs. map (\<lambda>i. (pid (provider i), lineNumber (position (hint i)),
                                column (position (hint i)))) (items fs))
     (create exampleDocument [firstProducer, secondProducer] [wholeLine] [0, 1])
     = Some [(1, 3, 5), (0, 3, 5)]"
  by (simp add: example_defs)

theorem every_returned_hint_exactly_once_witness:
  "create exampleDocument [lineProducer, failingProducer] [wholeLine, nextLine] [3, 0, 2, 1] =
     Some \<lparr>items = constructItems exampleDocument
                     [(\<lparr>hints = [hintAt 4 1 ''l'']\<rparr>, lineProducer),
                      (\<lparr>hints = [hintAt 3 1 ''l'']\<rparr>, lineProducer)],
           collected = [(\<lparr>hints = [hintAt 4 1 ''l'']\<rparr>, lineProducer),
                        (\<lparr>hints = [hintAt 3 1 ''l'']\<rparr>, lineProducer)],
           errors = [''boom'', ''boom'']\<rparr> \<and>
   mset (map hint (constructItems exampleDocument
                     [(\<lparr>hints = [hintAt 4 1 ''l'']\<rparr>, lineProducer),
                      (\<lparr>hints = [hintAt 3 1 ''l'']\<rparr>, lineProducer)])) =
     {#hintAt 3 1 ''l'', hintAt 4 1 ''l''#} \<and>
   mset [''boom'', ''boom''] = {#''boom'', ''boom''#}"
proof -
  let ?d = "[(\<lparr>hints = [hintAt 4 1 ''l'']\<rparr>, lineProducer),
             (\<lparr>hints = [hintAt 3 1 ''l'']\<rparr>, lineProducer)]"
  let ?X = "\<lparr>items = constructItems exampleDocument ?d, collected = ?d,
             errors = [''boom'', ''boom'']\<rparr>"
  have u: "[0..<4] = [0, 1, 2, 3]"
    by (simp add: upt_rec)
  have c: "create exampleDocument [lineProducer, failingProducer] [wholeLine, nextLine]
             [3, 0, 2, 1] = Some ?X"
    by (simp add: create_def length_launch allSettled_def u)
      (simp add: launch_def collect_def settleCall_def lineProducer_def failingProducer_def
        constantProvider_def wholeLine_def nextLine_def new_Range_def)
  note t = mp [OF spec [OF conjunct2 [OF every_returned_hint_exactly_once
             [of exampleDocument "[lineProducer, failingProducer]" "[wholeLine, nextLine]"
                 "[3, 0, 2, 1]"]]] c]
  from conjunct1 [OF t]
  have h: "mset (map hint (constructItems exampleDocument ?d)) =
           {#hintAt 3 1 ''l'', hintAt 4 1 ''l''#}"
    by (simp add: returnedHints_def lineProducer_def failingProducer_def constantProvider_def
        wholeLine_def nextLine_def new_Range_def)
  from c h show ?thesis
    by simp
qed

theorem anchor_side_follows_span_start_witness:
  "create exampleDocument [thirdProducer] [wholeLine] [0] =
     Some \<lparr>items = [\<lparr>hint = hintAt 3 6 ''c'',
                      anchor = \<lparr>range = \<lparr>startLineNumber = 3, startColumn = 5,
                                         endLineNumber = 3, endColumn = 6\<rparr>,
                                direction = After\<rparr>,
                      provider = thirdProducer, isResolved = False, currentResolve = None\<rparr>],
           collected = [(\<lparr>hints = [hintAt 3 6 ''c'']\<rparr>, thirdProducer)],
           errors = []\<rparr> \<and>
   isBefore (getStartPosition (getRangeAtPosition exampleDocument \<lparr>lineNumber = 3, column = 6\<rparr>))
     \<lparr>lineNumber = 3, column = 6\<rparr>"
proof -
  let ?I = "\<lparr>hint = hintAt 3 6 ''c'',
             anchor = \<lparr>range = \<lparr>startLineNumber = 3, startColumn = 5,
                                endLineNumber = 3, endColumn = 6\<rparr>,
                       direction = After\<rparr>,
             provider = thirdProducer, isResolved = False, currentResolve = None\<rparr>"
  let ?X = "\<lparr>items = [?I], collected = [(\<lparr>hints = [hintAt 3 6 ''c'']\<rparr>, thirdProducer)],
             errors = []\<rparr>"
  have c: "create exampleDocument [thirdProducer] [wholeLine] [0] = Some ?X"
    by (simp add: example_defs computeAnchor_def getRangeAtPosition_def exampleDocument_def
        tokenDocument_def lineTokensOf_def offsetAt_def new_Range_def fromPositions_def
        getStartPosition_def getEndPosition_def isBefore_def Let_def)
  have m: "?I \<in> set (items ?X)"
    by simp
  from anchor_side_follows_span_start [OF c m] c show ?thesis
    by (simp add: Let_def hintAt_def exampleDocument_def tokenDocument_def)
qed

theorem word_range_preferred_witness:
  "getWordAtPosition wordDocument \<lparr>lineNumber = 1, column = 4\<rparr> =
     Some \<lparr>word = ''foo'', word_startColumn = 1, word_endColumn = 4\<rparr> \<and>
   getStartOffset (getLineTokens wordDocument 1)
     (findTokenIndexAtOffset (getLineTokens wordDocument 1) 3) = 2 \<and>
   getRangeAtPosition wordDocument \<lparr>lineNumber = 1, column = 4\<rparr> =
     \<lparr>startLineNumber = 1, startColumn = 1, endLineNumber = 1, endColumn = 4\<rparr>"
proof -
  have w: "getWordAtPosition wordDocument \<lparr>lineNumber = 1, column = 4\<rparr> =
             Some \<lparr>word = ''foo'', word_startColumn = 1, word_endColumn = 4\<rparr>"
    by (simp add: wordDocument_def)
  have t: "getStartOffset (getLineTokens wordDocument 1)
             (findTokenIndexAtOffset (getLineTokens wordDocument 1) 3) = 2"
    by (simp add: wordDocument_def lineTokensOf_def offsetAt_def Let_def)
  have "wordDocument\<lparr>getLineTokens := getLineTokens wordDocument\<rparr> = wordDocument"
    by simp
  with word_range_preferred [OF w, of "getLineTokens wordDocument"] w t show ?thesis
    by (simp add: new_Range_def)
qed

text \<open>
  Claim C2. On the line with the tokens \<open>foo\<close>, \<open>.\<close> and \<open> bar\<close> and no word reported,
  the position at the start of the one-character token \<open>.\<close> (column 4, offset 3) has the
  preceding token \<open>foo\<close> available, with the span from column 1 to column 4. The
  placement computed is the span of \<open>.\<close> itself, from column 4 to column 5: the test
  \<open>idx > 1\<close> does not admit the token at index 1.
\<close>

theorem single_character_token_at_index_one:
  "getWordAtPosition exampleDocument \<lparr>lineNumber = 1, column = 4\<rparr> = None \<and>
   findTokenIndexAtOffset (getLineTokens exampleDocument 1) 3 = 1 \<and>
   getStartOffset (getLineTokens exampleDocument 1) 0 = 0 \<and>
   getEndOffset (getLineTokens exampleDocument 1) 0 = 3 \<and>
   getStartOffset (getLineTokens exampleDocument 1) 1 = 3 \<and>
   getEndOffset (getLineTokens exampleDocument 1) 1 = 4 \<and>
   getRangeAtPosition exampleDocument \<lparr>lineNumber = 1, column = 4\<rparr> =
     \<lparr>startLineNumber = 1, startColumn = 4, endLineNumber = 1, endColumn = 5\<rparr>"
  by (simp add: getRangeAtPosition_def exampleDocument_def tokenDocument_def lineTokensOf_def
      offsetAt_def new_Range_def Let_def)

section \<open>Resolution: the invariant\<close>

lemma wellFormed_initial: "wellFormed (initial hs its n)"
  by (simp add: wellFormed_def initial_def unsettled_def handle_def)

lemma resolve_enter_cases:
  assumes "resolve_enter i s = (s', st)"
  shows "(s' = s \<and> (st = Finished Normal \<or> st = AwaitFinal None \<or>
                     (\<exists>p. st = AwaitRetry p \<and> handle s i = Some p))) \<or>
         (handle s i = None \<and> \<not> isResolved (itemStore s i) \<and>
          hasResolveInlayHint (provider (itemStore s i)) \<and>
          st = AwaitFinal (Some (promiseCount s)) \<and>
          s' = s\<lparr>promises := (promises s)(promiseCount s := \<lparr>owner = i, pstate = Pending\<rparr>),
                 promiseCount := Suc (promiseCount s),
                 invoked := invoked s @ [i],
                 itemStore := (itemStore s)(i := (itemStore s i)\<lparr>currentResolve := Some (promiseCount s)\<rparr>)\<rparr>)"
  using assms
  by (auto simp: resolve_enter_def handle_def Let_def split: if_splits option.splits)

lemma wellFormed_start:
  assumes wf: "wellFormed s" and i: "i < itemCount s" and h: "handle s i = None"
  shows "wellFormed (s\<lparr>promises := (promises s)(promiseCount s := \<lparr>owner = i, pstate = Pending\<rparr>),
                 promiseCount := Suc (promiseCount s),
                 invoked := invoked s @ [i],
                 itemStore := (itemStore s)(i := (itemStore s i)\<lparr>currentResolve := Some (promiseCount s)\<rparr>)\<rparr>)"
    (is "wellFormed ?s'")
proof -
  have hd: "\<And>j. handle ?s' j = (if j = i then Some (promiseCount s) else handle s j)"
    by (simp add: handle_def)
  have un: "\<And>q. unsettled ?s' q = (q = promiseCount s \<or> unsettled s q)"
    by (auto simp: unsettled_def)
  from wf h have none: "\<And>q. unsettled s q \<Longrightarrow> owner (promises s q) \<noteq> i"
    by (auto simp: wellFormed_def)
  from wf have lt: "\<And>q. unsettled s q \<Longrightarrow> q \<noteq> promiseCount s"
    by (auto simp: unsettled_def)
  have 1: "\<forall>j p. handle ?s' j = Some p \<longrightarrow> p < promiseCount ?s'"
    using wf by (auto simp: hd wellFormed_def less_Suc_eq)
  have 2: "\<forall>p. p < promiseCount ?s' \<longrightarrow> owner (promises ?s' p) < itemCount ?s'"
    using wf i by (auto simp: wellFormed_def less_Suc_eq)
  have 3: "\<forall>p. unsettled ?s' p \<longrightarrow> handle ?s' (owner (promises ?s' p)) = Some p"
    using wf none lt by (auto simp: un hd wellFormed_def)
  have 4: "\<forall>p. completedNormally (pstate (promises ?s' p))"
    using wf by (simp add: wellFormed_def)
  have 5: "\<forall>c. returnedNormally (cstate (callers ?s' c))"
    using wf by (simp add: wellFormed_def)
  have 6: "\<forall>c. c < callerCount ?s' \<longrightarrow> target (callers ?s' c) < itemCount ?s'"
    using wf by (simp add: wellFormed_def)
  have 7: "\<forall>j. j \<in> set (invoked ?s') \<longrightarrow> j < itemCount ?s'"
    using wf i by (auto simp: wellFormed_def)
  from 1 2 3 4 5 6 7 show ?thesis
    unfolding wellFormed_def by blast
qed

lemma wellFormed_resolve_enter:
  assumes "wellFormed s" and "i < itemCount s" and "resolve_enter i s = (s', st)"
  shows "wellFormed s' \<and> returnedNormally st"
  using resolve_enter_cases [OF assms(3)] assms(1,2) wellFormed_start [of s i]
  by auto

lemma wellFormed_setCaller:
  assumes "wellFormed s" and "returnedNormally st"
  shows "wellFormed (setCaller c st s)"
  using assms by (simp add: wellFormed_def setCaller_def unsettled_def handle_def)

lemma wellFormed_addCaller:
  assumes "wellFormed s" and "returnedNormally st" and "i < itemCount s"
  shows "wellFormed (s\<lparr>callers := (callers s)(callerCount s := \<lparr>target = i, token = t, cstate = st\<rparr>),
                       callerCount := Suc (callerCount s)\<rparr>)"
  using assms by (simp add: wellFormed_def unsettled_def handle_def less_Suc_eq)

lemma step_Settle:
  assumes "step (Settle p out) s = Some s'"
  shows "p < promiseCount s" and "pstate (promises s p) = Pending"
    and "s' = s\<lparr>hintStore := (hintStore s)(hint (itemStore s (owner (promises s p))) :=
                    fst (doResolve_body out (hintStore s (hint (itemStore s (owner (promises s p))))) (sink s))),
                 itemStore := (itemStore s)(owner (promises s p) :=
                    (itemStore s (owner (promises s p)))\<lparr>isResolved := (case out of Resolves n \<Rightarrow> True | Rejects e \<Rightarrow> False)\<rparr>),
                 sink := (case out of Resolves n \<Rightarrow> sink s | Rejects e \<Rightarrow> sink s @ [e]),
                 promises := (promises s)(p := (promises s p)\<lparr>pstate := BodyDone Normal\<rparr>)\<rparr>"
  using assms
  by (auto simp: doResolve_body_def Let_def split: if_splits ResolveOutcome.splits)

lemma step_Finally:
  assumes "step (Finally p) s = Some s'"
  shows "\<exists>compl. p < promiseCount s \<and> pstate (promises s p) = BodyDone compl \<and>
          s' = s\<lparr>itemStore := (itemStore s)(owner (promises s p) :=
                       (itemStore s (owner (promises s p)))\<lparr>currentResolve := None\<rparr>),
                  promises := (promises s)(p := (promises s p)\<lparr>pstate := Settled compl\<rparr>)\<rparr>"
  using assms
  by (auto simp: Let_def split: if_splits PromiseState.splits)

lemma wellFormed_Settle:
  assumes wf: "wellFormed s" and st: "step (Settle p out) s = Some s'"
  shows "wellFormed s'"
proof -
  note f = step_Settle [OF st]
  have hd: "\<And>j. handle s' j = handle s j"
    by (simp add: f(3) handle_def)
  have un: "\<And>q. unsettled s' q = unsettled s q"
    using f(1,2) by (auto simp: f(3) unsettled_def)
  have ow: "\<And>q. owner (promises s' q) = owner (promises s q)"
    by (simp add: f(3))
  have cn: "\<And>q. completedNormally (pstate (promises s' q)) = completedNormally (pstate (promises s q))"
    using f(2) by (simp add: f(3))
  have rest: "promiseCount s' = promiseCount s" "itemCount s' = itemCount s" "callers s' = callers s"
    "callerCount s' = callerCount s" "invoked s' = invoked s"
    by (simp_all add: f(3))
  from wf show ?thesis
    unfolding wellFormed_def hd un ow cn rest .
qed

lemma wellFormed_Finally:
  assumes wf: "wellFormed s" and st: "step (Finally p) s = Some s'"
  shows "wellFormed s'"
proof -
  from step_Finally [OF st] obtain compl where p: "p < promiseCount s"
    and b: "pstate (promises s p) = BodyDone compl"
    and s': "s' = s\<lparr>itemStore := (itemStore s)(owner (promises s p) :=
                       (itemStore s (owner (promises s p)))\<lparr>currentResolve := None\<rparr>),
                  promises := (promises s)(p := (promises s p)\<lparr>pstate := Settled compl\<rparr>)\<rparr>"
    by blast
  have hd: "\<And>j. handle s' j = (if j = owner (promises s p) then None else handle s j)"
    by (simp add: s' handle_def)
  have un: "\<And>q. unsettled s' q = (q \<noteq> p \<and> unsettled s q)"
    by (auto simp: s' unsettled_def)
  have ow: "\<And>q. owner (promises s' q) = owner (promises s q)"
    by (simp add: s')
  have rest: "promiseCount s' = promiseCount s" "itemCount s' = itemCount s" "callers s' = callers s"
    "callerCount s' = callerCount s" "invoked s' = invoked s"
    by (simp_all add: s')
  from p b have up: "unsettled s p"
    by (simp add: unsettled_def)
  with wf have hp: "handle s (owner (promises s p)) = Some p"
    by (simp add: wellFormed_def)
  from wf b have "compl = Normal"
    by (metis wellFormed_def completedNormally.simps(2))
  with wf have cn: "\<And>q. completedNormally (pstate (promises s' q))"
    by (simp add: s' wellFormed_def)
  have 3: "\<forall>q. unsettled s' q \<longrightarrow> handle s' (owner (promises s' q)) = Some q"
  proof (intro allI impI)
    fix q assume "unsettled s' q"
    then have q: "q \<noteq> p" "unsettled s q" by (simp_all add: un)
    with wf have hq: "handle s (owner (promises s q)) = Some q"
      by (simp add: wellFormed_def)
    with hp q(1) have "owner (promises s q) \<noteq> owner (promises s p)"
      by auto
    with hq show "handle s' (owner (promises s' q)) = Some q"
      by (simp add: hd ow)
  qed
  from wf 3 cn show ?thesis
    unfolding wellFormed_def by (simp add: hd ow rest)
qed

lemma wellFormed_With:
  assumes wf: "wellFormed s" and st: "step (With i a) s = Some s'"
  shows "wellFormed s'"
proof -
  from st have i: "i < itemCount s"
    and s': "s' = s\<lparr>itemStore := (itemStore s)(itemCount s := with_anchor (itemStore s i) a),
                   itemCount := Suc (itemCount s)\<rparr>"
    by (auto split: if_splits)
  have hd: "\<And>j. handle s' j = (if j = itemCount s then handle s i else handle s j)"
    by (simp add: s' handle_def with_anchor_def new_InlayHintItem_def)
  have un: "\<And>q. unsettled s' q = unsettled s q"
    by (simp add: s' unsettled_def)
  have rest: "promiseCount s' = promiseCount s" "itemCount s' = Suc (itemCount s)"
    "callers s' = callers s" "promises s' = promises s" "callerCount s' = callerCount s"
    "invoked s' = invoked s"
    by (simp_all add: s')
  have 3: "\<forall>q. unsettled s' q \<longrightarrow> handle s' (owner (promises s' q)) = Some q"
  proof (intro allI impI)
    fix q assume "unsettled s' q"
    then have q: "unsettled s q" by (simp add: un)
    with wf have "owner (promises s q) < itemCount s" "handle s (owner (promises s q)) = Some q"
      by (simp_all add: wellFormed_def unsettled_def)
    then show "handle s' (owner (promises s' q)) = Some q"
      by (simp add: hd rest)
  qed
  from wf 3 show ?thesis
    unfolding wellFormed_def by (auto simp: hd rest less_Suc_eq)
qed

lemma wellFormed_retry:
  assumes "wellFormed s" and "c < callerCount s"
  shows "wellFormed (retry c s)"
proof (cases "token (callers s c) \<in> set (cancelled s)")
  case True
  with assms(1) show ?thesis
    by (simp add: retry_def wellFormed_setCaller)
next
  case False
  obtain s1 st where r: "resolve_enter (target (callers s c)) s = (s1, st)"
    by (cases "resolve_enter (target (callers s c)) s")
  from assms have "target (callers s c) < itemCount s"
    by (simp add: wellFormed_def)
  from wellFormed_resolve_enter [OF assms(1) this r] False r show ?thesis
    by (simp add: retry_def wellFormed_setCaller)
qed

lemma wellFormed_step:
  assumes wf: "wellFormed s" and st: "step e s = Some s'"
  shows "wellFormed s'"
proof (cases e)
  case (Call i t)
  obtain s1 st1 where r: "resolve_enter i s = (s1, st1)"
    by (cases "resolve_enter i s")
  from st Call r have i: "i < itemCount s"
    and s': "s' = s1\<lparr>callers := (callers s1)(callerCount s1 := \<lparr>target = i, token = t, cstate = st1\<rparr>),
                  callerCount := Suc (callerCount s1)\<rparr>"
    by (auto split: if_splits)
  from resolve_enter_cases [OF r] have "itemCount s1 = itemCount s"
    by auto
  with wellFormed_resolve_enter [OF wf i r] i show ?thesis
    unfolding s' by (intro wellFormed_addCaller) simp_all
next
  case (Settle p out)
  with wf st show ?thesis by (simp only: wellFormed_Settle)
next
  case (Finally p)
  with wf st show ?thesis by (simp only: wellFormed_Finally)
next
  case (Resume c)
  with st have c: "c < callerCount s"
    by (simp split: if_splits)
  from wf have normal: "\<And>p. completedNormally (pstate (promises s p))"
    by (simp add: wellFormed_def)
  show ?thesis
  proof (cases "cstate (callers s c)")
    case (AwaitRetry p)
    show ?thesis
    proof (cases "pstate (promises s p)")
      case (Settled compl)
      with normal [of p] have "compl = Normal" by simp
      with st Resume c AwaitRetry Settled have "s' = retry c s" by simp
      with wf c show ?thesis by (simp add: wellFormed_retry)
    qed (use st Resume c AwaitRetry in simp_all)
  next
    case (AwaitFinal po)
    show ?thesis
    proof (cases po)
      case None
      with st Resume c AwaitFinal have "s' = setCaller c (Finished Normal) s" by simp
      with wf show ?thesis by (simp add: wellFormed_setCaller)
    next
      case (Some p)
      show ?thesis
      proof (cases "pstate (promises s p)")
        case (Settled compl)
        with normal [of p] have "compl = Normal" by simp
        with st Resume c AwaitFinal Some Settled have "s' = setCaller c (Finished Normal) s"
          by simp
        with wf show ?thesis by (simp add: wellFormed_setCaller)
      qed (use st Resume c AwaitFinal Some in simp_all)
    qed
  next
    case (Finished compl)
    with st Resume c show ?thesis by simp
  qed
next
  case (Cancel t)
  with wf st show ?thesis
    by (auto simp: wellFormed_def unsettled_def handle_def)
next
  case (With i a)
  with wf st show ?thesis by (simp only: wellFormed_With)
qed

lemma wellFormed_exec:
  "wellFormed s \<Longrightarrow> exec evs s = Some s' \<Longrightarrow> wellFormed s'"
  by (induction evs arbitrary: s) (auto split: option.splits dest: wellFormed_step)

lemma wellFormed_reachable:
  "exec evs (initial hs its n) = Some s \<Longrightarrow> wellFormed s"
  using wellFormed_exec [OF wellFormed_initial] .

section \<open>Resolution: copies made in flight\<close>

lemma orphaned_resolve_enter:
  assumes "orphaned s j p" and "resolve_enter i s = (s', st)"
  shows "orphaned s' j p"
proof -
  from resolve_enter_cases [OF assms(2)] show ?thesis
  proof
    assume "s' = s \<and> (st = Finished Normal \<or> st = AwaitFinal None \<or>
                     (\<exists>p. st = AwaitRetry p \<and> handle s i = Some p))"
    with assms(1) show ?thesis by simp
  next
    assume a: "handle s i = None \<and> \<not> isResolved (itemStore s i) \<and>
          hasResolveInlayHint (provider (itemStore s i)) \<and>
          st = AwaitFinal (Some (promiseCount s)) \<and>
          s' = s\<lparr>promises := (promises s)(promiseCount s := \<lparr>owner = i, pstate = Pending\<rparr>),
                 promiseCount := Suc (promiseCount s),
                 invoked := invoked s @ [i],
                 itemStore := (itemStore s)(i := (itemStore s i)\<lparr>currentResolve := Some (promiseCount s)\<rparr>)\<rparr>"
    with assms(1) have ne: "i \<noteq> j"
      by (auto simp: orphaned_def)
    from a have s': "s' = s\<lparr>promises := (promises s)(promiseCount s := \<lparr>owner = i, pstate = Pending\<rparr>),
                 promiseCount := Suc (promiseCount s),
                 invoked := invoked s @ [i],
                 itemStore := (itemStore s)(i := (itemStore s i)\<lparr>currentResolve := Some (promiseCount s)\<rparr>)\<rparr>"
      by simp
    from assms(1) ne show ?thesis
      by (simp add: s' orphaned_def handle_def less_Suc_eq)
  qed
qed

lemma orphaned_callers [simp]:
  "orphaned (s\<lparr>callers := f\<rparr>) j p = orphaned s j p"
  "orphaned (s\<lparr>callers := f, callerCount := k\<rparr>) j p = orphaned s j p"
  "orphaned (setCaller c st s) j p = orphaned s j p"
  by (simp_all add: orphaned_def handle_def setCaller_def)

lemma orphaned_retry: "orphaned s j p \<Longrightarrow> orphaned (retry c s) j p"
  by (cases "resolve_enter (target (callers s c)) s")
    (auto simp: retry_def dest: orphaned_resolve_enter)

lemma orphaned_step:
  assumes o: "orphaned s j p" and st: "step e s = Some s'"
  shows "orphaned s' j p"
proof (cases e)
  case (Call i t)
  obtain s1 st1 where r: "resolve_enter i s = (s1, st1)"
    by (cases "resolve_enter i s")
  from st Call r have "s' = s1\<lparr>callers := (callers s1)(callerCount s1 := \<lparr>target = i, token = t, cstate = st1\<rparr>),
                  callerCount := Suc (callerCount s1)\<rparr>"
    by (auto split: if_splits)
  with orphaned_resolve_enter [OF o r] show ?thesis by simp
next
  case (Settle q out)
  with st have st': "step (Settle q out) s = Some s'" by simp
  from o step_Settle(1) [OF st'] show ?thesis
    by (auto simp: step_Settle(3) [OF st'] orphaned_def handle_def)
next
  case (Finally q)
  with st have "step (Finally q) s = Some s'" by simp
  from step_Finally [OF this] obtain compl where q: "q < promiseCount s"
    and s': "s' = s\<lparr>itemStore := (itemStore s)(owner (promises s q) :=
                       (itemStore s (owner (promises s q)))\<lparr>currentResolve := None\<rparr>),
                  promises := (promises s)(q := (promises s q)\<lparr>pstate := Settled compl\<rparr>)\<rparr>"
    by blast
  from o q have oq: "owner (promises s q) \<noteq> j"
    by (simp add: orphaned_def)
  have ow: "\<And>x. owner (promises s' x) = owner (promises s x)"
    by (simp add: s')
  have hd: "handle s' j = handle s j" "provider (itemStore s' j) = provider (itemStore s j)"
    using oq by (simp_all add: s' handle_def)
  have rest: "itemCount s' = itemCount s" "promiseCount s' = promiseCount s"
    "invoked s' = invoked s"
    by (simp_all add: s')
  from o show ?thesis
    unfolding orphaned_def hd ow rest .
next
  case (Resume c)
  with st o show ?thesis
    by (auto simp: orphaned_retry split: if_splits CallerState.splits PromiseState.splits
        Completion.splits option.splits)
next
  case (Cancel t)
  with st o show ?thesis by (auto simp: orphaned_def handle_def)
next
  case (With i a)
  with st o show ?thesis
    by (auto simp: orphaned_def handle_def less_Suc_eq split: if_splits)
qed

lemma cancelled_step: "step e s = Some s' \<Longrightarrow> set (cancelled s) \<subseteq> set (cancelled s')"
proof (cases e)
  case (Call i t)
  assume "step e s = Some s'"
  with Call show ?thesis
    by (cases "resolve_enter i s")
      (auto split: if_splits dest!: resolve_enter_cases)
next
  case (Settle q out)
  assume "step e s = Some s'"
  with Settle have "step (Settle q out) s = Some s'" by simp
  from step_Settle(3) [OF this] show ?thesis by simp
next
  case (Finally q)
  assume "step e s = Some s'"
  with Finally have "step (Finally q) s = Some s'" by simp
  from step_Finally [OF this] show ?thesis by auto
next
  case (Resume c)
  assume "step e s = Some s'"
  with Resume show ?thesis
    by (cases "resolve_enter (target (callers s c)) s")
      (auto simp: retry_def setCaller_def split: if_splits CallerState.splits PromiseState.splits
        Completion.splits option.splits dest!: resolve_enter_cases)
next
  case (Cancel t)
  assume "step e s = Some s'"
  with Cancel show ?thesis by auto
next
  case (With i a)
  assume "step e s = Some s'"
  with With show ?thesis by (auto split: if_splits)
qed

lemma cancelled_exec: "exec evs s = Some s' \<Longrightarrow> set (cancelled s) \<subseteq> set (cancelled s')"
  by (induction evs arbitrary: s) (auto split: option.splits dest: cancelled_step)

lemma waiting_callers:
  "c \<noteq> c' \<Longrightarrow> waiting (setCaller c' st s) c j p t = waiting s c j p t"
  by (simp add: waiting_def setCaller_def)

lemma waiting_resolve_enter:
  "resolve_enter i s = (s', st) \<Longrightarrow> waiting s' c j p t = waiting s c j p t"
  by (auto simp: waiting_def dest!: resolve_enter_cases)

lemma waiting_step:
  assumes wf: "wellFormed s" and o: "orphaned s j p" and w: "waiting s c j p t"
    and st: "step e s = Some s'" and t: "t \<notin> set (cancelled s')"
  shows "waiting s' c j p t"
proof (cases e)
  case (Call i t')
  obtain s1 st1 where r: "resolve_enter i s = (s1, st1)"
    by (cases "resolve_enter i s")
  from st Call r have s': "s' = s1\<lparr>callers := (callers s1)(callerCount s1 := \<lparr>target = i, token = t', cstate = st1\<rparr>),
                  callerCount := Suc (callerCount s1)\<rparr>"
    by (auto split: if_splits)
  from w have "waiting s1 c j p t"
    by (simp add: waiting_resolve_enter [OF r])
  then show ?thesis
    by (auto simp: s' waiting_def)
next
  case (Settle q out)
  with st have st': "step (Settle q out) s = Some s'" by simp
  from w show ?thesis
    by (simp add: step_Settle(3) [OF st'] waiting_def)
next
  case (Finally q)
  with st have "step (Finally q) s = Some s'" by simp
  from step_Finally [OF this] w show ?thesis
    by (auto simp: waiting_def)
next
  case (Resume c')
  show ?thesis
  proof (cases "c' = c")
    case True
    from w have cs: "c < callerCount s" "cstate (callers s c) = AwaitRetry p"
      "target (callers s c) = j" "token (callers s c) = t"
      by (simp_all add: waiting_def)
    from o have re: "resolve_enter j s = (s, AwaitRetry p)"
      by (simp add: resolve_enter_def orphaned_def handle_def Let_def)
    from wf have "completedNormally (pstate (promises s p))"
      by (simp add: wellFormed_def)
    with st Resume True cs have s': "s' = retry c s"
      by (auto split: PromiseState.splits Completion.splits)
    from cancelled_step [OF st] t have "t \<notin> set (cancelled s)"
      by auto
    then have "retry c s = setCaller c (AwaitRetry p) s"
      by (simp add: retry_def re cs)
    with cs show ?thesis
      by (simp add: s' waiting_def setCaller_def)
  next
    case False
    obtain s1 st1 where r: "resolve_enter (target (callers s c')) s = (s1, st1)"
      by (cases "resolve_enter (target (callers s c')) s")
    from w have "waiting s1 c j p t"
      by (simp add: waiting_resolve_enter [OF r])
    with st Resume False w r show ?thesis
      by (auto simp: retry_def waiting_callers split: if_splits CallerState.splits
          PromiseState.splits Completion.splits option.splits)
  qed
next
  case (Cancel t')
  with st w show ?thesis by (auto simp: waiting_def)
next
  case (With i a)
  with st w show ?thesis by (auto simp: waiting_def split: if_splits)
qed

lemma orphaned_exec:
  "orphaned s j p \<Longrightarrow> exec evs s = Some s' \<Longrightarrow> orphaned s' j p"
  by (induction evs arbitrary: s) (auto split: option.splits dest: orphaned_step)

lemma waiting_exec:
  assumes "wellFormed s" and "orphaned s j p" and "waiting s c j p t"
    and "exec evs s = Some s'" and "t \<notin> set (cancelled s')"
  shows "waiting s' c j p t"
  using assms
proof (induction evs arbitrary: s)
  case Nil
  then show ?case by simp
next
  case (Cons e evs)
  from Cons.prems(4) obtain s1 where e: "step e s = Some s1" and r: "exec evs s1 = Some s'"
    by (auto split: option.splits)
  from cancelled_exec [OF r] Cons.prems(5) have "t \<notin> set (cancelled s1)"
    by auto
  from wellFormed_step [OF Cons.prems(1) e] orphaned_step [OF Cons.prems(2) e]
    waiting_step [OF Cons.prems(1,2,3) e this] r Cons.prems(5)
  show ?case
    by (rule Cons.IH)
qed

lemma orphaned_With:
  assumes wf: "wellFormed s" and i: "i < itemCount s" and h: "handle s i = Some p"
    and r: "hasResolveInlayHint (provider (itemStore s i))"
    and st: "step (With i a) s = Some s'"
  shows "orphaned s' (itemCount s) p"
proof -
  from st i have s': "s' = s\<lparr>itemStore := (itemStore s)(itemCount s := with_anchor (itemStore s i) a),
                   itemCount := Suc (itemCount s)\<rparr>"
    by simp
  from wf have "\<And>q. q < promiseCount s \<Longrightarrow> owner (promises s q) \<noteq> itemCount s"
    and "itemCount s \<notin> set (invoked s)"
    by (auto simp: wellFormed_def)
  with h r show ?thesis
    by (simp add: s' orphaned_def handle_def with_anchor_def new_InlayHintItem_def)
qed

lemma waiting_Call:
  assumes o: "orphaned s j p" and st: "step (Call j t) s = Some s'"
  shows "waiting s' (callerCount s) j p t"
proof -
  from o have re: "resolve_enter j s = (s, AwaitRetry p)"
    by (simp add: resolve_enter_def orphaned_def handle_def Let_def)
  with st show ?thesis
    by (auto simp: waiting_def split: if_splits)
qed

section \<open>Resolution: the claims\<close>

lemmas run_defs = idle_def resolve_enter_def doResolve_body_def setCaller_def retry_def Let_def

lemmas example_run_defs =
  exampleRuntime_def initial_def new_InlayHintItem_def with_anchor_def firstProducer_def
  constantProvider_def hintAt_def

text \<open>
  Claim C4, amended. When \<open>resolve\<close> is called on an idle item and the producer's call
  succeeds, the hint's tooltip and its label are each replaced exactly when the result
  carries a value for the field that is not \<open>undefined\<close>/\<open>null\<close>; an absent result or
  an absent field leaves the existing value. The item is resolved afterwards and the
  caller's \<open>resolve\<close> completes normally.
\<close>

theorem resolve_success_overwrites_present_fields:
  assumes "idle s i"
  shows "map_option
           (\<lambda>s'. (tooltip (hintStore s' (hint (itemStore s i))),
                  label (hintStore s' (hint (itemStore s i))),
                  isResolved (itemStore s' i),
                  cstate (callers s' (callerCount s))))
           (exec [Call i t, Settle (promiseCount s) (Resolves newHint),
                  Finally (promiseCount s), Resume (callerCount s)] s) =
         Some (case Option.bind newHint tooltip of
                 None \<Rightarrow> tooltip (hintStore s (hint (itemStore s i)))
               | Some v \<Rightarrow> Some v,
               case Option.bind newHint label of
                 None \<Rightarrow> label (hintStore s (hint (itemStore s i)))
               | Some v \<Rightarrow> Some v,
               True, Finished Normal)"
  using assms by (simp add: run_defs nullish_def split: option.splits)

theorem resolve_success_overwrites_present_fields_witness:
  "idle exampleRuntime 0 \<and>
   map_option
     (\<lambda>s'. (tooltip (hintStore s' (hint (itemStore exampleRuntime 0))),
            label (hintStore s' (hint (itemStore exampleRuntime 0))),
            isResolved (itemStore s' 0),
            cstate (callers s' (callerCount exampleRuntime))))
     (exec [Call 0 0, Settle (promiseCount exampleRuntime) (Resolves (Some (hintAt 3 5 ''b''))),
            Finally (promiseCount exampleRuntime), Resume (callerCount exampleRuntime)]
        exampleRuntime) =
     Some (Some ''tip'', Some ''b'', True, Finished Normal)"
proof -
  have i: "idle exampleRuntime 0"
    by (simp add: idle_def example_run_defs)
  from resolve_success_overwrites_present_fields [OF i, of 0 "Some (hintAt 3 5 ''b'')"] i
  show ?thesis
    by (simp add: example_run_defs)
qed

text \<open>
  A replacement label that is the empty string is a value: it overwrites the label
  \<open>a\<close> of the hint. The claim as stated (an empty replacement leaves the field unchanged)
  fails.
\<close>

theorem empty_label_overwrites_counterexample:
  "label (hintStore exampleRuntime 0) = Some ''a'' \<and>
   map_option (\<lambda>s'. (label (hintStore s' 0), isResolved (itemStore s' 0)))
     (exec [Call 0 0, Settle 0 (Resolves (Some (hintAt 3 5 ''''))), Finally 0, Resume 0]
        exampleRuntime) =
     Some (Some '''', True)"
  by (simp add: example_run_defs run_defs nullish_def)

lemma reachable_returnedNormally:
  "exec evs (initial hs its n) = Some s \<Longrightarrow> returnedNormally (cstate (callers s c))"
  by (drule wellFormed_reachable) (simp add: wellFormed_def)

text \<open>
  Claim C5. When \<open>resolve\<close> is called on an idle item and the producer's call fails, the
  error is appended to the error sink, the caller's \<open>resolve\<close> completes normally, the
  item is unresolved and without a handle, and no hint in the store has changed; a
  further \<open>resolve\<close> invokes the producer again. In no reachable state has any caller's
  \<open>resolve\<close> completed by throwing.
\<close>

theorem failed_resolve_reported_and_retried:
  assumes "exec evs (initial hs its n) = Some s" and "idle s i"
  shows "map_option
           (\<lambda>s'. (sink s', isResolved (itemStore s' i), currentResolve (itemStore s' i),
                  hintStore s', cstate (callers s' (callerCount s)), invoked s'))
           (exec [Call i t, Settle (promiseCount s) (Rejects err),
                  Finally (promiseCount s), Resume (callerCount s)] s) =
         Some (sink s @ [err], False, None, hintStore s, Finished Normal, invoked s @ [i]) \<and>
         map_option (\<lambda>s'. (invoked s', sink s'))
           (exec [Call i t, Settle (promiseCount s) (Rejects err),
                  Finally (promiseCount s), Resume (callerCount s), Call i t'] s) =
         Some (invoked s @ [i, i], sink s @ [err]) \<and>
         (\<forall>c. returnedNormally (cstate (callers s c)))"
  using assms(2) reachable_returnedNormally [OF assms(1)]
  by (simp add: run_defs)

theorem failed_resolve_reported_and_retried_witness:
  "exec [] (initial (\<lambda>a. (hintAt 3 5 ''a'')\<lparr>tooltip := Some ''tip''\<rparr>)
              (\<lambda>i. new_InlayHintItem 0 exampleAnchor firstProducer) 1) = Some exampleRuntime \<and>
   idle exampleRuntime 0 \<and>
   map_option (\<lambda>s'. (invoked s', sink s'))
     (exec [Call 0 0, Settle (promiseCount exampleRuntime) (Rejects ''boom''),
            Finally (promiseCount exampleRuntime), Resume (callerCount exampleRuntime), Call 0 1]
        exampleRuntime) =
     Some ([0, 0], [''boom''])"
proof -
  have r: "exec [] (initial (\<lambda>a. (hintAt 3 5 ''a'')\<lparr>tooltip := Some ''tip''\<rparr>)
              (\<lambda>i. new_InlayHintItem 0 exampleAnchor firstProducer) 1) = Some exampleRuntime"
    by (simp add: exampleRuntime_def)
  have i: "idle exampleRuntime 0"
    by (simp add: idle_def example_run_defs)
  from failed_resolve_reported_and_retried [OF r i, of 0 "''boom''" 1] r i
  show ?thesis
    by (simp add: example_run_defs)
qed

text \<open>
  Claim C6. In every reachable state, two unsettled promises created by the same item are
  the same promise: at most one resolution per item is in flight. When \<open>resolve\<close> is
  called twice on an idle item before the producer answers, the first caller creates the
  promise and the second awaits that promise; the producer has been invoked once. When
  that invocation succeeds and both callers have been resumed, both have completed, the
  producer has still been invoked once, no further promise exists and the handle is
  cleared. The \<open>finally\<close> step of a promise clears the handle of the item that created
  it and settles the promise.
\<close>

theorem one_resolution_in_flight:
  assumes "exec evs (initial hs its n) = Some s"
  shows "(\<forall>p q. unsettled s p \<and> unsettled s q \<and>
                owner (promises s p) = owner (promises s q) \<longrightarrow> p = q) \<and>
         (idle s i \<and> t2 \<notin> set (cancelled s) \<longrightarrow>
            map_option
              (\<lambda>s'. (cstate (callers s' (callerCount s)), cstate (callers s' (Suc (callerCount s))),
                     invoked s', promiseCount s'))
              (exec [Call i t1, Call i t2] s) =
            Some (AwaitFinal (Some (promiseCount s)), AwaitRetry (promiseCount s),
                  invoked s @ [i], Suc (promiseCount s)) \<and>
            map_option
              (\<lambda>s'. (cstate (callers s' (callerCount s)), cstate (callers s' (Suc (callerCount s))),
                     invoked s', promiseCount s', currentResolve (itemStore s' i)))
              (exec [Call i t1, Call i t2, Settle (promiseCount s) (Resolves newHint),
                     Finally (promiseCount s), Resume (callerCount s),
                     Resume (Suc (callerCount s)), Resume (Suc (callerCount s))] s) =
            Some (Finished Normal, Finished Normal, invoked s @ [i], Suc (promiseCount s), None)) \<and>
         (\<forall>p s'. step (Finally p) s = Some s' \<longrightarrow>
            currentResolve (itemStore s' (owner (promises s p))) = None \<and> \<not> unsettled s' p)"
proof (intro conjI allI impI)
  fix p q
  assume a: "unsettled s p \<and> unsettled s q \<and> owner (promises s p) = owner (promises s q)"
  from wellFormed_reachable [OF assms]
  have "\<And>x. unsettled s x \<Longrightarrow> handle s (owner (promises s x)) = Some x"
    by (simp add: wellFormed_def)
  from this [of p] this [of q] a have "Some p = Some q"
    by (simp only:)
  then show "p = q"
    by simp
next
  assume "idle s i \<and> t2 \<notin> set (cancelled s)"
  then show "map_option
              (\<lambda>s'. (cstate (callers s' (callerCount s)), cstate (callers s' (Suc (callerCount s))),
                     invoked s', promiseCount s'))
              (exec [Call i t1, Call i t2] s) =
            Some (AwaitFinal (Some (promiseCount s)), AwaitRetry (promiseCount s),
                  invoked s @ [i], Suc (promiseCount s))"
    by (simp add: run_defs)
next
  assume "idle s i \<and> t2 \<notin> set (cancelled s)"
  then show "map_option
              (\<lambda>s'. (cstate (callers s' (callerCount s)), cstate (callers s' (Suc (callerCount s))),
                     invoked s', promiseCount s', currentResolve (itemStore s' i)))
              (exec [Call i t1, Call i t2, Settle (promiseCount s) (Resolves newHint),
                     Finally (promiseCount s), Resume (callerCount s),
                     Resume (Suc (callerCount s)), Resume (Suc (callerCount s))] s) =
            Some (Finished Normal, Finished Normal, invoked s @ [i], Suc (promiseCount s), None)"
    by (simp add: run_defs)
next
  fix p s'
  assume "step (Finally p) s = Some s'"
  from step_Finally [OF this] obtain compl where
    "s' = s\<lparr>itemStore := (itemStore s)(owner (promises s p) :=
                       (itemStore s (owner (promises s p)))\<lparr>currentResolve := None\<rparr>),
                  promises := (promises s)(p := (promises s p)\<lparr>pstate := Settled compl\<rparr>)\<rparr>"
    by blast
  then show "currentResolve (itemStore s' (owner (promises s p))) = None"
    by simp
next
  fix p s'
  assume "step (Finally p) s = Some s'"
  from step_Finally [OF this] obtain compl where
    "s' = s\<lparr>itemStore := (itemStore s)(owner (promises s p) :=
                       (itemStore s (owner (promises s p)))\<lparr>currentResolve := None\<rparr>),
                  promises := (promises s)(p := (promises s p)\<lparr>pstate := Settled compl\<rparr>)\<rparr>"
    by blast
  then show "\<not> unsettled s' p"
    by (simp add: unsettled_def)
qed

theorem one_resolution_in_flight_witness:
  "exec [] (initial (\<lambda>a. (hintAt 3 5 ''a'')\<lparr>tooltip := Some ''tip''\<rparr>)
              (\<lambda>i. new_InlayHintItem 0 exampleAnchor firstProducer) 1) = Some exampleRuntime \<and>
   idle exampleRuntime 0 \<and> 1 \<notin> set (cancelled exampleRuntime) \<and>
   map_option
     (\<lambda>s'. (cstate (callers s' 0), cstate (callers s' 1), invoked s', promiseCount s',
            currentResolve (itemStore s' 0)))
     (exec [Call 0 0, Call 0 1, Settle 0 (Resolves None), Finally 0, Resume 0, Resume 1, Resume 1]
        exampleRuntime) =
     Some (Finished Normal, Finished Normal, [0], 1, None)"
proof -
  have r: "exec [] (initial (\<lambda>a. (hintAt 3 5 ''a'')\<lparr>tooltip := Some ''tip''\<rparr>)
              (\<lambda>i. new_InlayHintItem 0 exampleAnchor firstProducer) 1) = Some exampleRuntime"
    by (simp add: exampleRuntime_def)
  have i: "idle exampleRuntime 0 \<and> 1 \<notin> set (cancelled exampleRuntime)"
    by (simp add: idle_def example_run_defs)
  have c: "promiseCount exampleRuntime = 0" "callerCount exampleRuntime = 0"
    "invoked exampleRuntime = []"
    by (simp_all add: example_run_defs)
  note scenario = conjunct1 [OF conjunct2 [OF one_resolution_in_flight [OF r, of 0 1 0 None]]]
  from conjunct2 [OF mp [OF scenario i]] r i
  show ?thesis
    by (simp only: c) simp
qed

text \<open>
  Claim C10. Let \<open>with\<close> be called on an item while its handle is set, in a reachable
  state. Whatever happens afterwards, the copy keeps that handle and never invokes the
  producer; a caller of \<open>resolve\<close> on the copy is suspended on the handle for as long as
  its token is not cancelled, however often it is resumed, and it has completed only in
  states in which its token is cancelled.
\<close>

theorem copy_made_in_flight_never_returns:
  assumes reach: "exec evs (initial hs its n) = Some s"
    and item: "i < itemCount s" "hasResolveInlayHint (provider (itemStore s i))"
    and inflight: "currentResolve (itemStore s i) = Some p"
    and copy: "step (With i a) s = Some s1"
    and later: "exec evs1 s1 = Some s2"
    and call: "step (Call (itemCount s) t) s2 = Some s3"
    and after: "exec evs2 s3 = Some s4"
  shows "currentResolve (itemStore s4 (itemCount s)) = Some p \<and>
         itemCount s \<notin> set (invoked s4) \<and>
         (t \<notin> set (cancelled s4) \<longrightarrow>
            cstate (callers s4 (callerCount s2)) = AwaitRetry p) \<and>
         (\<forall>compl. cstate (callers s4 (callerCount s2)) = Finished compl \<longrightarrow>
            t \<in> set (cancelled s4))"
proof -
  have wf: "wellFormed s"
    by (rule wellFormed_reachable [OF reach])
  have o1: "orphaned s1 (itemCount s) p"
    by (rule orphaned_With [OF wf item(1) _ item(2) copy]) (simp add: handle_def inflight)
  have wf2: "wellFormed s2"
    by (rule wellFormed_exec [OF wellFormed_step [OF wf copy] later])
  have o2: "orphaned s2 (itemCount s) p"
    by (rule orphaned_exec [OF o1 later])
  have wf3: "wellFormed s3"
    by (rule wellFormed_step [OF wf2 call])
  have o3: "orphaned s3 (itemCount s) p"
    by (rule orphaned_step [OF o2 call])
  have w3: "waiting s3 (callerCount s2) (itemCount s) p t"
    by (rule waiting_Call [OF o2 call])
  have o4: "orphaned s4 (itemCount s) p"
    by (rule orphaned_exec [OF o3 after])
  have w4: "t \<notin> set (cancelled s4) \<Longrightarrow> waiting s4 (callerCount s2) (itemCount s) p t"
    by (rule waiting_exec [OF wf3 o3 w3 after])
  from o4 have a: "currentResolve (itemStore s4 (itemCount s)) = Some p"
    "itemCount s \<notin> set (invoked s4)"
    by (simp_all add: orphaned_def handle_def)
  have b: "t \<notin> set (cancelled s4) \<Longrightarrow> cstate (callers s4 (callerCount s2)) = AwaitRetry p"
    using w4 by (simp add: waiting_def)
  from a b show ?thesis
    by fastforce
qed

theorem copy_made_in_flight_never_returns_witness:
  "map_option
     (\<lambda>s. (currentResolve (itemStore s 1), cstate (callers s 1), cancelled s,
           pstate (promises s 0)))
     (exec [Call 0 0, With 0 exampleAnchor, Settle 0 (Resolves None), Finally 0,
            Call 1 7, Resume 1, Resume 1] exampleRuntime) =
     Some (Some 0, AwaitRetry 0, [], Settled Normal)"
proof -
  let ?s = "the (exec [Call 0 0] exampleRuntime)"
  let ?s1 = "the (step (With 0 exampleAnchor) ?s)"
  let ?s2 = "the (exec [Settle 0 (Resolves None), Finally 0] ?s1)"
  let ?s3 = "the (step (Call 1 7) ?s2)"
  let ?s4 = "the (exec [Resume 1, Resume 1] ?s3)"
  have some: "\<And>x :: Runtime option. x \<noteq> None \<Longrightarrow> x = Some (the x)"
    by simp
  have r: "exec [Call 0 0] (initial (\<lambda>a. (hintAt 3 5 ''a'')\<lparr>tooltip := Some ''tip''\<rparr>)
              (\<lambda>i. new_InlayHintItem 0 exampleAnchor firstProducer) 1) = Some ?s"
    unfolding exampleRuntime_def [symmetric]
    by (rule some) (simp add: example_run_defs run_defs)
  have i: "0 < itemCount ?s" "hasResolveInlayHint (provider (itemStore ?s 0))"
    "currentResolve (itemStore ?s 0) = Some 0" "itemCount ?s = 1"
    by (simp_all add: example_run_defs run_defs)
  have c: "step (With 0 exampleAnchor) ?s = Some ?s1"
    by (rule some) (simp add: example_run_defs run_defs)
  have l: "exec [Settle 0 (Resolves None), Finally 0] ?s1 = Some ?s2"
    by (rule some) (simp add: example_run_defs run_defs)
  have k: "step (Call (itemCount ?s) 7) ?s2 = Some ?s3"
    unfolding i(4) by (rule some) (simp add: example_run_defs run_defs)
  have k': "callerCount ?s2 = 1"
    by (simp add: example_run_defs run_defs)
  have a: "exec [Resume 1, Resume 1] ?s3 = Some ?s4"
    by (rule some) (simp add: example_run_defs run_defs)
  have e: "map_option
     (\<lambda>s. (currentResolve (itemStore s 1), cstate (callers s 1), cancelled s,
           pstate (promises s 0)))
     (exec [Call 0 0, With 0 exampleAnchor, Settle 0 (Resolves None), Finally 0,
            Call 1 7, Resume 1, Resume 1] exampleRuntime) =
     Some (currentResolve (itemStore ?s4 1), cstate (callers ?s4 1), [], Settled Normal) \<and>
     cancelled ?s4 = []"
    by (simp add: example_run_defs run_defs)
  then have n: "7 \<notin> set (cancelled ?s4)"
    by simp
  from copy_made_in_flight_never_returns [OF r i(1,2,3) c l k a] n
  have "currentResolve (itemStore ?s4 1) = Some 0 \<and> cstate (callers ?s4 1) = AwaitRetry 0"
    by (simp only: i(4) k') simp
  with e show ?thesis
    by (simp only:)
qed

section \<open>Change signals and release: the claim\<close>

lemma forwarders_constructorStep:
  "length (filter (\<lambda>l. fst l = q) (forwarders (constructorStep d w))) =
   length (filter (\<lambda>l. fst l = q) (forwarders w)) +
   (if pid (snd d) = q \<and> hasOnDidChangeInlayHints (snd d) then 1 else 0)"
  by (simp add: constructorStep_def subscribe_def Let_def)

lemma forwarders_fold_constructorStep:
  "length (filter (\<lambda>l. fst l = q) (forwarders (fold constructorStep ds w))) =
   length (filter (\<lambda>l. fst l = q) (forwarders w)) +
   length (filter (\<lambda>d. pid (snd d) = q \<and> hasOnDidChangeInlayHints (snd d)) ds)"
  by (induction ds arbitrary: w) (simp_all add: forwarders_constructorStep)

lemma held_constructorStep: "held w \<Longrightarrow> held (constructorStep d w)"
  by (auto simp: held_def constructorStep_def subscribe_def Let_def)

lemma held_fold_constructorStep: "held w \<Longrightarrow> held (fold constructorStep ds w)"
  by (induction ds arbitrary: w) (simp_all add: held_constructorStep)

lemma held_constructSignals: "held (constructSignals ds)"
  unfolding constructSignals_def
  by (rule held_fold_constructorStep) (simp add: held_def noSignals_def)

lemma forwarders_disposeOne:
  "set (forwarders (disposeOne d w)) =
   set (forwarders w) - {l. Subscription (fst l) (snd l) = d}"
  by (cases d) auto

lemma forwarders_fold_disposeOne:
  "set (forwarders (fold disposeOne ds w)) =
   set (forwarders w) - {l. Subscription (fst l) (snd l) \<in> set ds}"
  by (induction ds arbitrary: w) (auto simp: forwarders_disposeOne)

lemma fired_disposeOne: "fired (disposeOne d w) = fired w"
  by (cases d) simp_all

lemma forwarders_dispose: "held w \<Longrightarrow> forwarders (dispose w) = []"
proof -
  assume "held w"
  then have "set (forwarders (dispose w)) = {}"
    by (auto simp: dispose_def forwarders_fold_disposeOne held_def)
  then show ?thesis by simp
qed

lemma fired_fold_fireSignal:
  "forwarders w = [] \<Longrightarrow> fired (fold fireSignal qs w) = fired w \<and> forwarders (fold fireSignal qs w) = []"
  by (induction qs arbitrary: w) (simp_all add: fireSignal_def)

lemma collected_create:
  "create m ps rs sched = Some fs \<Longrightarrow> collected fs = data (collect (launch ps rs) sched)"
  by (auto simp: create_def Let_def split: if_splits)

lemma contribution_nonempty: "d \<in> set (contribution c) \<Longrightarrow> hints (fst d) \<noteq> []"
  by (auto simp: contribution_def settleCall_def split: ProvideOutcome.splits option.splits if_splits)

text \<open>
  Claim C9, amended. The result lists collected by a construction are non-empty. For every
  collected result list whose producer has the change capability, the fragment set
  installs one listener on that producer's signal: a firing of producer \<open>q\<close> calls the
  merged emitter once for each collected list of \<open>q\<close>. After \<open>dispose\<close>, no sequence of
  firings of any producers calls the merged emitter.
\<close>

theorem subscriptions_forward_until_release:
  assumes "create model providers ranges schedule = Some fs"
  shows "(\<forall>q. fired (fireSignal q (constructSignals (collected fs))) =
              fired (constructSignals (collected fs)) +
              length (filter (\<lambda>d. pid (snd d) = q \<and> hasOnDidChangeInlayHints (snd d))
                        (collected fs))) \<and>
         (\<forall>d. d \<in> set (collected fs) \<longrightarrow> hints (fst d) \<noteq> []) \<and>
         (\<forall>qs. fired (fold fireSignal qs (dispose (constructSignals (collected fs)))) =
               fired (dispose (constructSignals (collected fs))))"
proof (intro conjI allI impI)
  fix q
  show "fired (fireSignal q (constructSignals (collected fs))) =
        fired (constructSignals (collected fs)) +
        length (filter (\<lambda>d. pid (snd d) = q \<and> hasOnDidChangeInlayHints (snd d)) (collected fs))"
    by (simp add: fireSignal_def constructSignals_def forwarders_fold_constructorStep noSignals_def)
next
  fix d
  assume "d \<in> set (collected fs)"
  then show "hints (fst d) \<noteq> []"
    by (auto simp: collected_create [OF assms] data_collect dest: contribution_nonempty)
next
  fix qs
  from forwarders_dispose [OF held_constructSignals]
  show "fired (fold fireSignal qs (dispose (constructSignals (collected fs)))) =
        fired (dispose (constructSignals (collected fs)))"
    by (simp add: fired_fold_fireSignal)
qed

theorem subscriptions_forward_until_release_witness:
  "create exampleDocument [firstProducer] [wholeLine] [0] =
     Some \<lparr>items = constructItems exampleDocument [(\<lparr>hints = [hintAt 3 5 ''a'']\<rparr>, firstProducer)],
           collected = [(\<lparr>hints = [hintAt 3 5 ''a'']\<rparr>, firstProducer)],
           errors = []\<rparr> \<and>
   fired (fireSignal 0 (constructSignals [(\<lparr>hints = [hintAt 3 5 ''a'']\<rparr>, firstProducer)])) = 1 \<and>
   fired (fold fireSignal [0, 0]
            (dispose (constructSignals [(\<lparr>hints = [hintAt 3 5 ''a'']\<rparr>, firstProducer)]))) = 0"
proof -
  let ?d = "[(\<lparr>hints = [hintAt 3 5 ''a'']\<rparr>, firstProducer)]"
  let ?X = "\<lparr>items = constructItems exampleDocument ?d, collected = ?d, errors = []\<rparr>"
  have c: "create exampleDocument [firstProducer] [wholeLine] [0] = Some ?X"
    by (simp add: create_def launch_def allSettled_def collect_def settleCall_def
        firstProducer_def constantProvider_def hintAt_def)
  have f: "fired (constructSignals ?d) = 0" "fired (dispose (constructSignals ?d)) = 0"
    "pid firstProducer = 0" "hasOnDidChangeInlayHints firstProducer"
    by (simp_all add: constructSignals_def constructorStep_def subscribe_def noSignals_def
        dispose_def firstProducer_def constantProvider_def Let_def)
  note t = subscriptions_forward_until_release [OF c]
  from spec [OF conjunct1 [OF t], of 0] f
  have a: "fired (fireSignal 0 (constructSignals ?d)) = 1"
    by simp
  from spec [OF conjunct2 [OF conjunct2 [OF t]], of "[0, 0]"] f
  have b: "fired (fold fireSignal [0, 0] (dispose (constructSignals ?d))) = 0"
    by simp
  from c a b show ?thesis
    by (intro conjI)
qed

text \<open>
  A producer that has the change capability and returned no hints is not among the
  collected pairs: before any release, a firing of its signal does not call the merged
  emitter. The claim as stated (every producer with the capability is subscribed and
  forwarded) fails.
\<close>

theorem quiet_producer_not_subscribed_counterexample:
  "hasOnDidChangeInlayHints quietProducer \<and> pid quietProducer = 4 \<and>
   map_option (\<lambda>fs. (collected fs, fired (fireSignal 4 (constructSignals (collected fs)))))
     (create exampleDocument [quietProducer] [wholeLine] [0]) = Some ([], 0)"
  by (simp add: create_def launch_def allSettled_def collect_def settleCall_def
      quietProducer_def constantProvider_def constructSignals_def noSignals_def fireSignal_def)

end
